theory Spec2Isabelle
  imports Main
begin

section \<open>Python values, errors and character classes\<close>

text \<open>
  The repository is Python 3 (see \<^verbatim>\<open>setup.py\<close>). Texts are modelled as \<open>string\<close>,
  a list of code points below 256. Every exception the modelled code can raise is a
  value of \<open>py_error\<close>; a function that may raise returns \<open>py_error + 'a\<close>.
\<close>

datatype py_error = IndexError | AttributeError

text \<open>
  A \<open>char\<close> is a code point below 256. \<^verbatim>\<open>str.isspace\<close> and the regex class
  \<^verbatim>\<open>\s\<close> hold there of 9 to 13, 28 to 32, U+0085 and U+00A0.
\<close>

definition isspace :: "char \<Rightarrow> bool" where
  "isspace c = (c \<in> set [CHR 0x09, CHR 0x0A, CHR 0x0B, CHR 0x0C, CHR 0x0D,
                          CHR 0x1C, CHR 0x1D, CHR 0x1E, CHR 0x1F, CHR 0x20,
                          CHR 0x85, CHR 0xA0])"

text \<open>\<^verbatim>\<open>str.islower\<close> of one character: a to z, U+00AA, U+00B5, U+00BA, U+00DF to
  U+00F6 and U+00F8 to U+00FF.\<close>

definition islower :: "char \<Rightarrow> bool" where
  "islower c = (c \<in> set (''abcdefghijklmnopqrstuvwxyz'' @
                         [CHR 0xAA, CHR 0xB5, CHR 0xBA, CHR 0xDF, CHR 0xE0, CHR 0xE1, CHR 0xE2, CHR 0xE3,
                          CHR 0xE4, CHR 0xE5, CHR 0xE6, CHR 0xE7, CHR 0xE8, CHR 0xE9, CHR 0xEA, CHR 0xEB,
                          CHR 0xEC, CHR 0xED, CHR 0xEE, CHR 0xEF, CHR 0xF0, CHR 0xF1, CHR 0xF2, CHR 0xF3,
                          CHR 0xF4, CHR 0xF5, CHR 0xF6, CHR 0xF8, CHR 0xF9, CHR 0xFA, CHR 0xFB, CHR 0xFC,
                          CHR 0xFD, CHR 0xFE, CHR 0xFF]))"

text \<open>\<^verbatim>\<open>str.isupper\<close> of one character: A to Z, U+00C0 to U+00D6 and U+00D8 to
  U+00DE.\<close>

definition isupper :: "char \<Rightarrow> bool" where
  "isupper c = (c \<in> set (''ABCDEFGHIJKLMNOPQRSTUVWXYZ'' @
                         [CHR 0xC0, CHR 0xC1, CHR 0xC2, CHR 0xC3, CHR 0xC4, CHR 0xC5, CHR 0xC6, CHR 0xC7,
                          CHR 0xC8, CHR 0xC9, CHR 0xCA, CHR 0xCB, CHR 0xCC, CHR 0xCD, CHR 0xCE, CHR 0xCF,
                          CHR 0xD0, CHR 0xD1, CHR 0xD2, CHR 0xD3, CHR 0xD4, CHR 0xD5, CHR 0xD6, CHR 0xD8,
                          CHR 0xD9, CHR 0xDA, CHR 0xDB, CHR 0xDC, CHR 0xDD, CHR 0xDE]))"

text \<open>\<^verbatim>\<open>str.isalnum\<close> of one character: the letters above, the digits 0 to 9, and the
  superscripts and fractions U+00B2, U+00B3, U+00B9, U+00BC to U+00BE.\<close>

definition isalnum :: "char \<Rightarrow> bool" where
  "isalnum c = (islower c \<or> isupper c
                \<or> c \<in> set (''0123456789'' @ [CHR 0xB2, CHR 0xB3, CHR 0xB9, CHR 0xBC, CHR 0xBD, CHR 0xBE]))"

text \<open>\<^verbatim>\<open>s[0]\<close> on a Python string.\<close>

definition first_char :: "string \<Rightarrow> py_error + char" where
  "first_char s = (case s of [] \<Rightarrow> Inl IndexError | c # _ \<Rightarrow> Inr c)"

text \<open>\<^verbatim>\<open>re.search(r"\)", s)\<close> as a truth value.\<close>

definition has_close_paren :: "string \<Rightarrow> bool" where
  "has_close_paren s = (CHR '')'' \<in> set s)"

text \<open>\<^verbatim>\<open>re.search(r'\S', s)\<close> as a truth value.\<close>

definition has_nonspace :: "string \<Rightarrow> bool" where
  "has_nonspace s = list_ex (\<lambda>c. \<not> isspace c) s"

text \<open>
  \<^verbatim>\<open>re.search(P + "$", s)\<close> for a pattern \<open>P\<close> that is a fixed sequence of character
  classes. Without \<^verbatim>\<open>re.MULTILINE\<close> the anchor \<^verbatim>\<open>$\<close> matches at the end of the
  string and also just before a newline that is the last character.
\<close>

definition match_at_end :: "(char \<Rightarrow> bool) list \<Rightarrow> string \<Rightarrow> bool" where
  "match_at_end ps s =
     (length ps \<le> length s \<and> list_all2 (\<lambda>p c. p c) ps (drop (length s - length ps) s))"

definition search_end :: "(char \<Rightarrow> bool) list \<Rightarrow> string \<Rightarrow> bool" where
  "search_end ps s =
     (match_at_end ps s \<or> (s \<noteq> [] \<and> last s = CHR 0x0A \<and> match_at_end ps (butlast s)))"

text \<open>The class \<^verbatim>\<open>[\.?!]\<close> and the class \<^verbatim>\<open>\S\<close>.\<close>

definition final_punct :: "char \<Rightarrow> bool" where
  "final_punct c = (c \<in> set ''.?!'')"

definition nonspace :: "char \<Rightarrow> bool" where
  "nonspace c = (\<not> isspace c)"

text \<open>
  The disjunction of the five searches that both classifiers apply to the previous
  span's text (\<^verbatim>\<open>nlp.py\<close> lines 126 to 130, \<^verbatim>\<open>document.py\<close> lines 115 to 119).
\<close>

definition ends_with_punct :: "string \<Rightarrow> bool" where
  "ends_with_punct s =
     (search_end [final_punct] s
      \<or> search_end [final_punct, nonspace] s
      \<or> search_end [final_punct, nonspace, nonspace] s
      \<or> search_end [final_punct, isspace] s
      \<or> search_end [final_punct, isspace, isspace] s)"

section \<open>Tokens, documents and spans of the external parser\<close>

text \<open>
  A spaCy token carries its text, whether one space follows it (\<^verbatim>\<open>whitespace_\<close> is
  \<^verbatim>\<open>' '\<close> or \<^verbatim>\<open>''\<close>) and the flag \<^verbatim>\<open>is_sent_start\<close> (True, False or None).
  A document is its token list together with the candidate sentences \<^verbatim>\<open>doc.sents\<close>,
  each given by the \<^verbatim>\<open>start\<close> and \<^verbatim>\<open>end\<close> of its span; they are the parser's output
  and are taken as given.
\<close>

record token =
  tok_text :: string
  tok_ws :: bool
  tok_is_sent_start :: "bool option"

record doc =
  tokens :: "token list"
  sents :: "(nat \<times> nat) list"

record span =
  sdoc :: doc
  sstart :: nat
  send :: nat

text \<open>\<^verbatim>\<open>doc[start:end]\<close> for non-negative bounds: spaCy clamps both to the
  document and never lets the end precede the start.\<close>

definition doc_slice :: "doc \<Rightarrow> nat \<Rightarrow> nat \<Rightarrow> span" where
  "doc_slice d start stop =
     (let n = length (tokens d);
          s = min n start;
          e = min n (max s stop)
      in \<lparr>sdoc = d, sstart = s, send = e\<rparr>)"

text \<open>\<^verbatim>\<open>doc[:]\<close>.\<close>

definition doc_whole :: "doc \<Rightarrow> span" where
  "doc_whole d = \<lparr>sdoc = d, sstart = 0, send = length (tokens d)\<rparr>"

text \<open>\<^verbatim>\<open>doc[i]\<close> for a non-negative index.\<close>

definition doc_index :: "doc \<Rightarrow> nat \<Rightarrow> py_error + token" where
  "doc_index d i = (if i < length (tokens d) then Inr (tokens d ! i) else Inl IndexError)"

definition span_tokens :: "span \<Rightarrow> token list" where
  "span_tokens sp = take (send sp - sstart sp) (drop (sstart sp) (tokens (sdoc sp)))"

text \<open>\<^verbatim>\<open>span.end - span.start\<close>, an integer.\<close>

definition span_len :: "span \<Rightarrow> int" where
  "span_len sp = int (send sp) - int (sstart sp)"

definition text_with_ws :: "token \<Rightarrow> string" where
  "text_with_ws t = tok_text t @ (if tok_ws t then '' '' else [])"

text \<open>\<^verbatim>\<open>span.text\<close>: the tokens' texts with their following spaces, without the
  space that follows the last token.\<close>

definition span_text :: "span \<Rightarrow> string" where
  "span_text sp =
     (case span_tokens sp of
        [] \<Rightarrow> []
      | t # ts \<Rightarrow> concat (map text_with_ws (butlast (t # ts))) @ tok_text (last (t # ts)))"

section \<open>The merge classifier of nlp.py\<close>

text \<open>
  \<^verbatim>\<open>combine_with_previous(previous, current)\<close>, \<^verbatim>\<open>nlp.py\<close> lines 89 to 135. Each of
  the four tests is a definition of its own; \<open>and\<close> and \<open>or\<close> evaluate left to right
  and stop early, so \<^verbatim>\<open>text[0]\<close> is read only when the length test before it holds.
\<close>

definition short_fragment_rule :: "span \<Rightarrow> span \<Rightarrow> py_error + bool" where
  "short_fragment_rule previous current =
     (if span_len current < 3 then
        (case first_char (span_text current) of
           Inl e \<Rightarrow> Inl e
         | Inr c \<Rightarrow> Inr (islower c \<or> has_close_paren (span_text previous)))
      else Inr False)"

definition short_close_paren_rule :: "span \<Rightarrow> bool" where
  "short_close_paren_rule current =
     (span_len current < 7 \<and> has_close_paren (span_text current))"

definition short_capitalized_previous_rule :: "span \<Rightarrow> py_error + bool" where
  "short_capitalized_previous_rule previous =
     (if span_len previous < 3 then
        (case first_char (span_text previous) of
           Inl e \<Rightarrow> Inl e
         | Inr c \<Rightarrow> Inr (isupper c))
      else Inr False)"

definition missing_terminal_punct_rule :: "span \<Rightarrow> bool" where
  "missing_terminal_punct_rule previous = (\<not> ends_with_punct (span_text previous))"

definition combine_with_previous :: "span \<Rightarrow> span \<Rightarrow> py_error + bool" where
  "combine_with_previous previous current =
     (case short_fragment_rule previous current of
        Inl e \<Rightarrow> Inl e
      | Inr r1 \<Rightarrow>
          if r1 then Inr True
          else if short_close_paren_rule current then Inr True
          else (case short_capitalized_previous_rule previous of
                  Inl e \<Rightarrow> Inl e
                | Inr r3 \<Rightarrow>
                    if r3 then Inr True
                    else if missing_terminal_punct_rule previous then Inr True
                    else Inr False))"

section \<open>The merge classifier of document.py\<close>

text \<open>\<^verbatim>\<open>Document.combine_with_previous\<close>, \<^verbatim>\<open>document.py\<close> lines 91 to 124: two tests,
  neither of which indexes a text.\<close>

definition Document_combine_with_previous :: "span \<Rightarrow> span \<Rightarrow> bool" where
  "Document_combine_with_previous previous current =
     (if span_len current < 3 then True
      else if \<not> ends_with_punct (span_text previous) then True
      else False)"

section \<open>sentence_segmenter and set_sentence_starts of nlp.py\<close>

text \<open>
  The first loop of \<^verbatim>\<open>sentence_segmenter\<close> (lines 156 to 176) over the candidates
  \<^verbatim>\<open>list(doc.sents)\<close>, with the accumulator \<^verbatim>\<open>sen_offsets\<close>; \<open>merge_step\<close> is one
  iteration. The variable \<^verbatim>\<open>previous\<close> starts as None and is reassigned in every iteration that finds
  \<^verbatim>\<open>sen_offsets\<close> non-empty; the accumulator never shrinks, so at the test of line 171
  \<^verbatim>\<open>previous\<close> is None exactly when the accumulator is empty. The classifier is called
  whenever \<^verbatim>\<open>previous\<close> is not None (so its exception propagates), and its result is
  conjoined with the literal \<^verbatim>\<open>False\<close> of line 171.
\<close>

definition merge_step :: "doc \<Rightarrow> (nat \<times> nat) list \<Rightarrow> nat \<times> nat \<Rightarrow> py_error + (nat \<times> nat) list" where
  "merge_step d sen_offsets sen =
     (let start = fst sen;
          stop = snd sen;
          current = doc_slice d start stop
      in if length sen_offsets > 0 then
           (let p_start = fst (last sen_offsets);
                p_end = snd (last sen_offsets);
                previous = doc_slice d p_start p_end
            in case combine_with_previous previous current of
                 Inl e \<Rightarrow> Inl e
               | Inr b \<Rightarrow>
                   if b \<and> False then Inr (butlast sen_offsets @ [(p_start, stop)])
                   else Inr (sen_offsets @ [(start, stop)]))
         else Inr (sen_offsets @ [(start, stop)]))"

fun merge_loop :: "doc \<Rightarrow> (nat \<times> nat) list \<Rightarrow> (nat \<times> nat) list \<Rightarrow> py_error + (nat \<times> nat) list" where
  "merge_loop d sen_offsets [] = Inr sen_offsets"
| "merge_loop d sen_offsets (sen # rest) =
     (case merge_step d sen_offsets sen of
        Inl e \<Rightarrow> Inl e
      | Inr sen_offsets' \<Rightarrow> merge_loop d sen_offsets' rest)"

text \<open>
  The second loop (lines 179 to 190) over the offsets the first loop produced, with
  the accumulator \<^verbatim>\<open>final_offsets\<close>. \<^verbatim>\<open>doc[start]\<close> and \<^verbatim>\<open>final_offsets[-1]\<close>
  raise IndexError out of range.
\<close>

definition shift_step :: "doc \<Rightarrow> (nat \<times> nat) list \<Rightarrow> nat \<times> nat \<Rightarrow> py_error + (nat \<times> nat) list" where
  "shift_step d final_offsets offsets =
     (let start = fst offsets;
          stop = snd offsets
      in if start > 0 then
           (case doc_index d start of
              Inl e \<Rightarrow> Inl e
            | Inr tok \<Rightarrow>
                if \<not> has_nonspace (tok_text tok) then
                  (if final_offsets = [] then Inl IndexError
                   else
                     (let prev_start = fst (last final_offsets);
                          prev_end = snd (last final_offsets)
                      in Inr (butlast final_offsets @ [(prev_start, prev_end + 1)]
                                @ [(start + 1, stop)])))
                else Inr (final_offsets @ [offsets]))
         else Inr (final_offsets @ [offsets]))"

fun shift_loop :: "doc \<Rightarrow> (nat \<times> nat) list \<Rightarrow> (nat \<times> nat) list \<Rightarrow> py_error + (nat \<times> nat) list" where
  "shift_loop d final_offsets [] = Inr final_offsets"
| "shift_loop d final_offsets (offsets # rest) =
     (case shift_step d final_offsets offsets of
        Inl e \<Rightarrow> Inl e
      | Inr final_offsets' \<Rightarrow> shift_loop d final_offsets' rest)"

definition sentence_segmenter :: "doc \<Rightarrow> py_error + (nat \<times> nat) list" where
  "sentence_segmenter d =
     (case merge_loop d [] (sents d) of
        Inl e \<Rightarrow> Inl e
      | Inr sen_offsets \<Rightarrow> shift_loop d [] sen_offsets)"

text \<open>
  \<^verbatim>\<open>set_sentence_starts\<close> (lines 30 to 47): the loop of line 41 runs over
  \<^verbatim>\<open>doc[:-1]\<close>, the tokens without the last one; \<open>i\<close> is \<^verbatim>\<open>token.i\<close>. The
  function returns the doc it was given, with the flags of its tokens rewritten; the
  model returns the tokens of that doc. (\<^verbatim>\<open>doc.sents\<close> of the returned doc is what the
  parser derives from the new flags; \<open>sents\<close> is the candidate list read on entry.)
\<close>

fun mark_tokens :: "nat list \<Rightarrow> nat \<Rightarrow> token list \<Rightarrow> token list" where
  "mark_tokens starts i [] = []"
| "mark_tokens starts i (t # ts) =
     (if i \<in> set starts then t\<lparr>tok_is_sent_start := Some True\<rparr>
      else t\<lparr>tok_is_sent_start := None\<rparr>) # mark_tokens starts (Suc i) ts"

definition set_sentence_starts :: "doc \<Rightarrow> py_error + token list" where
  "set_sentence_starts d =
     (case sentence_segmenter d of
        Inl e \<Rightarrow> Inl e
      | Inr segs \<Rightarrow>
          (let starts = map fst segs;
               ts = tokens d
           in Inr (if ts = [] then []
                   else mark_tokens starts 0 (butlast ts) @ [last ts])))"

section \<open>Document.generate_sentences of document.py\<close>

text \<open>
  The parser \<^verbatim>\<open>spacy_nlp\<close>, the spaCy attribute \<^verbatim>\<open>span.root\<close> and the constructor
  \<^verbatim>\<open>Node\<close> of the module \<^verbatim>\<open>gmutils.node\<close> are the parameters
  \<open>nlp\<close>, \<open>root\<close> and \<open>mk_node\<close>. The field \<open>parse_calls\<close> records, in order, the
  texts handed to \<^verbatim>\<open>spacy_nlp\<close>; the other fields are the attributes of the class.
\<close>

record 'n document =
  spacy_docs :: "doc list"
  sentences :: "span list"
  trees :: "'n list"
  parse_calls :: "string list"

text \<open>
  The loop of lines 145 to 169 over the candidates of one doc, one iteration being
  \<open>collect_step\<close>. \<open>prev\<close> is \<^verbatim>\<open>spacy_sentences[i-1]\<close>, present when \<^verbatim>\<open>i > 0\<close>; the
  state is \<^verbatim>\<open>(need_to_reparse, sen_offsets, sen_spans)\<close>. Assigning to index -1 of
  an empty list raises IndexError.
\<close>

definition collect_step ::
  "doc \<Rightarrow> (nat \<times> nat) option \<Rightarrow> bool \<times> (nat \<times> nat) list \<times> span list \<Rightarrow> nat \<times> nat
     \<Rightarrow> py_error + (bool \<times> (nat \<times> nat) list \<times> span list)" where
  "collect_step d prev st sen =
     (case st of (need_to_reparse, sen_offsets, sen_spans) \<Rightarrow>
      let start = fst sen;
          stop = snd sen;
          current = doc_slice d start stop
      in case prev of
           None \<Rightarrow>
             Inr (need_to_reparse, sen_offsets @ [(start, stop)], sen_spans @ [doc_slice d start stop])
         | Some (p_start, p_end) \<Rightarrow>
             if Document_combine_with_previous (doc_slice d p_start p_end) current then
               (if sen_offsets = [] \<or> sen_spans = [] then Inl IndexError
                else Inr (True,
                          butlast sen_offsets @ [(fst (last sen_offsets), stop)],
                          butlast sen_spans @ [doc_slice d (fst (last sen_offsets)) stop]))
             else
               Inr (need_to_reparse, sen_offsets @ [(start, stop)],
                    sen_spans @ [doc_slice d start stop]))"

fun collect_sentences ::
  "doc \<Rightarrow> (nat \<times> nat) option \<Rightarrow> bool \<times> (nat \<times> nat) list \<times> span list \<Rightarrow> (nat \<times> nat) list
     \<Rightarrow> py_error + (bool \<times> (nat \<times> nat) list \<times> span list)" where
  "collect_sentences d prev st [] = Inr st"
| "collect_sentences d prev st (sen # rest) =
     (case collect_step d prev st sen of
        Inl e \<Rightarrow> Inl e
      | Inr st' \<Rightarrow> collect_sentences d (Some sen) st' rest)"

text \<open>Lines 172 to 177: every span is parsed again on its own.\<close>

fun reparse_spans ::
  "(string \<Rightarrow> doc) \<Rightarrow> (span \<Rightarrow> 'r) \<Rightarrow> (doc \<Rightarrow> 'r \<Rightarrow> 'n) \<Rightarrow> 'n document \<times> doc list \<Rightarrow> span list
     \<Rightarrow> 'n document \<times> doc list" where
  "reparse_spans nlp root mk_node (self, checked_docs) [] = (self, checked_docs)"
| "reparse_spans nlp root mk_node (self, checked_docs) (sp # rest) =
     (let doc2 = nlp (span_text sp);
          span2 = doc_whole doc2
      in reparse_spans nlp root mk_node
           (self\<lparr>sentences := sentences self @ [span2],
                 trees := trees self @ [mk_node doc2 (root span2)],
                 parse_calls := parse_calls self @ [span_text sp]\<rparr>,
            checked_docs @ [doc2]) rest)"

text \<open>Lines 181 to 183: the spans of the original doc are kept.\<close>

fun keep_spans :: "(span \<Rightarrow> 'r) \<Rightarrow> (doc \<Rightarrow> 'r \<Rightarrow> 'n) \<Rightarrow> doc \<Rightarrow> 'n document \<Rightarrow> span list \<Rightarrow> 'n document" where
  "keep_spans root mk_node d self [] = self"
| "keep_spans root mk_node d self (sp # rest) =
     keep_spans root mk_node d
       (self\<lparr>sentences := sentences self @ [sp],
             trees := trees self @ [mk_node d (root sp)]\<rparr>) rest"

text \<open>
  The loop of line 142 over \<^verbatim>\<open>self.spacy_docs\<close>. \<^verbatim>\<open>sen_offsets\<close> and \<^verbatim>\<open>sen_spans\<close>
  are created before it (lines 137 and 138) and carried from one doc to the next;
  \<^verbatim>\<open>need_to_reparse\<close> is reset for each doc.
\<close>

fun docs_loop ::
  "(string \<Rightarrow> doc) \<Rightarrow> (span \<Rightarrow> 'r) \<Rightarrow> (doc \<Rightarrow> 'r \<Rightarrow> 'n)
     \<Rightarrow> 'n document \<times> (nat \<times> nat) list \<times> span list \<times> doc list \<Rightarrow> doc list
     \<Rightarrow> py_error + ('n document \<times> (nat \<times> nat) list \<times> span list \<times> doc list)" where
  "docs_loop nlp root mk_node st [] = Inr st"
| "docs_loop nlp root mk_node (self, sen_offsets, sen_spans, checked_docs) (d # ds) =
     (case collect_sentences d None (False, sen_offsets, sen_spans) (sents d) of
        Inl e \<Rightarrow> Inl e
      | Inr (need_to_reparse, sen_offsets', sen_spans') \<Rightarrow>
          if need_to_reparse then
            (case reparse_spans nlp root mk_node (self, checked_docs) sen_spans' of
               (self', checked_docs') \<Rightarrow>
                 docs_loop nlp root mk_node (self', sen_offsets', sen_spans', checked_docs') ds)
          else
            docs_loop nlp root mk_node
              (keep_spans root mk_node d self sen_spans', sen_offsets', sen_spans',
               checked_docs @ [d]) ds)"

definition generate_sentences ::
  "(string \<Rightarrow> doc) \<Rightarrow> (span \<Rightarrow> 'r) \<Rightarrow> (doc \<Rightarrow> 'r \<Rightarrow> 'n) \<Rightarrow> 'n document \<Rightarrow> py_error + 'n document" where
  "generate_sentences nlp root mk_node self =
     (case docs_loop nlp root mk_node (self\<lparr>sentences := [], trees := []\<rparr>, [], [], [])
             (spacy_docs self) of
        Inl e \<Rightarrow> Inl e
      | Inr (self', sen_offsets, sen_spans, checked_docs) \<Rightarrow>
          Inr (self'\<lparr>spacy_docs := checked_docs\<rparr>))"

section \<open>Object.set and Object.get of objects.py\<close>

text \<open>
  An \<^verbatim>\<open>Object\<close> keeps its options in the attribute \<^verbatim>\<open>_value_\<close>, a dict that
  \<^verbatim>\<open>set_options\<close> creates; the class has no constructor, so the attribute may be
  absent (\<open>None\<close>). Keys are strings (docstring of \<^verbatim>\<open>set\<close>).
\<close>

datatype pyval = PyNone | PyBool bool | PyInt int | PyStr string

record object =
  attr_value :: "(string \<rightharpoonup> pyval) option"

text \<open>\<^verbatim>\<open>set\<close> (lines 101 to 111): \<^verbatim>\<open>self._value_[key] = val\<close>.\<close>

definition Object_set :: "object \<Rightarrow> string \<Rightarrow> pyval \<Rightarrow> py_error + object" where
  "Object_set self key val =
     (case attr_value self of
        None \<Rightarrow> Inl AttributeError
      | Some m \<Rightarrow> Inr (self\<lparr>attr_value := Some (m(key \<mapsto> val))\<rparr>))"

text \<open>\<^verbatim>\<open>get\<close> (lines 114 to 122): a missing key gives \<^verbatim>\<open>False\<close>; any other
  exception, such as the missing attribute, creates an empty dict and gives \<^verbatim>\<open>False\<close>.
  The result is the object after the call and the returned value.\<close>

definition Object_get :: "object \<Rightarrow> string \<Rightarrow> object \<times> pyval" where
  "Object_get self key =
     (case attr_value self of
        None \<Rightarrow> (self\<lparr>attr_value := Some Map.empty\<rparr>, PyBool False)
      | Some m \<Rightarrow>
          (case m key of
             None \<Rightarrow> (self, PyBool False)
           | Some v \<Rightarrow> (self, v)))"

section \<open>Partitions of the token range\<close>

text \<open>
  \<open>chain a spans b\<close>: the spans, in order, lead from token \<open>a\<close> to token \<open>b\<close>; the
  first starts at \<open>a\<close>, every span has its start at or before its end, every end is
  the next span's start, and the last ends at \<open>b\<close>. A partition of a document of \<open>n\<close>
  tokens is \<open>chain 0 spans n\<close>.
\<close>

fun chain :: "nat \<Rightarrow> (nat \<times> nat) list \<Rightarrow> nat \<Rightarrow> bool" where
  "chain a [] b = (a = b)"
| "chain a (x # xs) b = (fst x = a \<and> fst x \<le> snd x \<and> chain (snd x) xs b)"

text \<open>
  What the external parser guarantees of its output: no token has empty text, and
  \<^verbatim>\<open>doc.sents\<close> partitions the token range into non-empty spans.
\<close>

definition parser_contract :: "doc \<Rightarrow> bool" where
  "parser_contract d =
     (list_all (\<lambda>t. tok_text t \<noteq> []) (tokens d)
      \<and> chain 0 (sents d) (length (tokens d))
      \<and> list_all (\<lambda>x. fst x < snd x) (sents d))"

section \<open>The whitespace shift in closed form\<close>

text \<open>
  \<open>shifts d x\<close> is 1 when the second loop of \<^verbatim>\<open>sentence_segmenter\<close> shifts the span
  \<open>x\<close> (its start is after token 0 and its starting token's text has no non-whitespace
  character) and 0 otherwise. \<open>shifted_spans d xs\<close> moves every start by the span's
  own shift and every end by the shift of the span that follows.
\<close>

definition shifts :: "doc \<Rightarrow> nat \<times> nat \<Rightarrow> nat" where
  "shifts d x = (if 0 < fst x \<and> \<not> has_nonspace (tok_text (tokens d ! fst x)) then 1 else 0)"

fun shifted_spans :: "doc \<Rightarrow> (nat \<times> nat) list \<Rightarrow> (nat \<times> nat) list" where
  "shifted_spans d [] = []"
| "shifted_spans d [x] = [(fst x + shifts d x, snd x)]"
| "shifted_spans d (x # y # rest) =
     (fst x + shifts d x, snd x + shifts d y) # shifted_spans d (y # rest)"

section \<open>The number of folds\<close>

text \<open>
  The merge count of a doc: the number of candidates, each taken with the candidate
  just before it (\<open>prev\<close>, absent for the first), for which
  \<^verbatim>\<open>Document.combine_with_previous\<close> returns True.
\<close>

fun fold_count :: "doc \<Rightarrow> (nat \<times> nat) option \<Rightarrow> (nat \<times> nat) list \<Rightarrow> nat" where
  "fold_count d prev [] = 0"
| "fold_count d prev (sen # rest) =
     (case prev of
        None \<Rightarrow> 0
      | Some p \<Rightarrow>
          if Document_combine_with_previous (doc_slice d (fst p) (snd p))
               (doc_slice d (fst sen) (snd sen))
          then 1 else 0)
     + fold_count d (Some sen) rest"

section \<open>Example documents\<close>

definition tok :: "string \<Rightarrow> bool \<Rightarrow> token" where
  "tok s w = \<lparr>tok_text = s, tok_ws = w, tok_is_sent_start = None\<rparr>"

text \<open>"Hi. ok": a sentence and a lowercase one-token fragment.\<close>

definition doc_hi_ok :: doc where
  "doc_hi_ok = \<lparr>tokens = [tok ''Hi'' False, tok ''.'' True, tok ''ok'' False],
                sents = [(0, 2), (2, 3)]\<rparr>"

text \<open>"It ended. Hi": a sentence and a capitalised one-token fragment.\<close>

definition doc_it_ended :: doc where
  "doc_it_ended = \<lparr>tokens = [tok ''It'' True, tok ''ended'' False, tok ''.'' True, tok ''Hi'' False],
                   sents = [(0, 3), (3, 4)]\<rparr>"

text \<open>"It is v.1 Then we left": the first candidate ends in a full stop followed by a digit.\<close>

definition doc_v1 :: doc where
  "doc_v1 = \<lparr>tokens = [tok ''It'' True, tok ''is'' True, tok ''v.1'' True,
                        tok ''Then'' True, tok ''we'' True, tok ''left'' False],
             sents = [(0, 3), (3, 6)]\<rparr>"

text \<open>"We all left Then we stayed": the first candidate has no final punctuation.\<close>

definition doc_no_punct :: doc where
  "doc_no_punct = \<lparr>tokens = [tok ''We'' True, tok ''all'' True, tok ''left'' True,
                              tok ''Then'' True, tok ''we'' True, tok ''stayed'' False],
                   sents = [(0, 3), (3, 6)]\<rparr>"

text \<open>"Hi.  ": a sentence followed by a candidate that is one whitespace token.\<close>

definition doc_trailing_space :: doc where
  "doc_trailing_space = \<lparr>tokens = [tok ''Hi'' False, tok ''.'' True, tok '' '' False],
                         sents = [(0, 2), (2, 3)]\<rparr>"

text \<open>"Hi.  Yo": the second candidate starts with a whitespace token.\<close>

definition doc_two_spaces :: doc where
  "doc_two_spaces = \<lparr>tokens = [tok ''Hi'' False, tok ''.'' True, tok '' '' False, tok ''Yo'' False],
                     sents = [(0, 2), (2, 4)]\<rparr>"

text \<open>"Hi." followed by a space token, a newline token and "Yo": a candidate that is
  one space token, then one that starts with the newline token.\<close>

definition doc_two_ws :: doc where
  "doc_two_ws = \<lparr>tokens = [tok ''Hi'' False, tok ''.'' True, tok '' '' False,
                            tok [CHR 0x0A] False, tok ''Yo'' False],
                 sents = [(0, 2), (2, 3), (3, 5)]\<rparr>"

text \<open>"Hi!ab Go on now": the one-token candidate "ab" follows "Hi!" without a space.\<close>

definition doc_exclaim :: doc where
  "doc_exclaim = \<lparr>tokens = [tok ''Hi'' False, tok ''!'' False, tok ''ab'' True,
                             tok ''Go'' True, tok ''on'' True, tok ''now'' False],
                  sents = [(0, 2), (2, 3), (3, 6)]\<rparr>"

text \<open>"Hi. ok" with the flags of its two candidates: True on tokens 0 and 2, False on
  token 1.\<close>

definition doc_last_start :: doc where
  "doc_last_start =
     \<lparr>tokens = [\<lparr>tok_text = ''Hi'', tok_ws = False, tok_is_sent_start = Some True\<rparr>,
                \<lparr>tok_text = ''.'', tok_ws = True, tok_is_sent_start = Some False\<rparr>,
                \<lparr>tok_text = ''ok'', tok_ws = False, tok_is_sent_start = Some True\<rparr>],
      sents = [(0, 2), (2, 3)]\<rparr>"

text \<open>A stand-in for the external parser: the whole text as one token and one sentence.\<close>

definition single_token_parser :: "string \<Rightarrow> doc" where
  "single_token_parser t = \<lparr>tokens = [tok t False], sents = [(0, 1)]\<rparr>"

text \<open>A Document as \<^verbatim>\<open>__init__\<close> hands it to \<^verbatim>\<open>generate_sentences\<close>: one parsed
  doc, nothing else yet. Trees are recorded as the pair of \<^verbatim>\<open>Node\<close>'s arguments.\<close>

definition document_of :: "doc \<Rightarrow> (doc \<times> nat) document" where
  "document_of d = \<lparr>spacy_docs = [d], sentences = [], trees = [], parse_calls = []\<rparr>"

lemmas span_defs =
  doc_slice_def span_len_def span_text_def span_tokens_def text_with_ws_def tok_def first_char_def

lemmas char_defs =
  islower_def isupper_def isspace_def isalnum_def has_close_paren_def final_punct_def nonspace_def

lemmas rule_defs =
  combine_with_previous_def short_fragment_rule_def short_close_paren_rule_def
  short_capitalized_previous_rule_def missing_terminal_punct_rule_def
  Document_combine_with_previous_def ends_with_punct_def search_end_def match_at_end_def

section \<open>Object.set and Object.get\<close>

text \<open>
  C8 (as amended). For every Object whose option dict \<^verbatim>\<open>_value_\<close> exists, and every key
  and value, \<^verbatim>\<open>set(key, val)\<close> succeeds and \<^verbatim>\<open>get(key)\<close> afterwards returns
  \<^verbatim>\<open>val\<close>; and for every key that is not in the dict, also when the dict itself is
  absent, \<^verbatim>\<open>get(key)\<close> returns \<^verbatim>\<open>False\<close> (it has no raising branch).
\<close>

theorem Object_set_get:
  "(attr_value self = Some m \<longrightarrow>
      (\<exists>self'. Object_set self key val = Inr self' \<and> snd (Object_get self' key) = val))
   \<and> ((case attr_value self of None \<Rightarrow> True | Some m' \<Rightarrow> m' key = None) \<longrightarrow>
      snd (Object_get self key) = PyBool False)"
  by (auto simp: Object_set_def Object_get_def split: option.splits)

theorem Object_set_get_witness:
  "attr_value \<lparr>attr_value = Some Map.empty\<rparr> = Some Map.empty
   \<and> (\<exists>self'. Object_set \<lparr>attr_value = Some Map.empty\<rparr> ''verbose'' (PyBool True) = Inr self'
        \<and> snd (Object_get self' ''verbose'') = PyBool True)
   \<and> snd (Object_get \<lparr>attr_value = Some Map.empty\<rparr> ''verbose'') = PyBool False"
  using Object_set_get [of "\<lparr>attr_value = Some Map.empty\<rparr>" Map.empty "''verbose''" "PyBool True"]
  by simp

text \<open>
  On an Object that never ran \<^verbatim>\<open>set_options\<close> the attribute is absent and \<^verbatim>\<open>set\<close>
  raises AttributeError, so no value is stored for \<^verbatim>\<open>get\<close> to return.
\<close>

theorem Object_set_uninitialised:
  "Object_set \<lparr>attr_value = None\<rparr> ''verbose'' (PyBool True) = Inl AttributeError"
  by (simp add: Object_set_def)

section \<open>The short-fragment rule\<close>

lemma first_char_Cons: "first_char s = Inr c \<longleftrightarrow> (\<exists>r. s = c # r)"
  by (cases s) (auto simp: first_char_def)

lemma upper_not_lower: "isupper c \<Longrightarrow> \<not> islower c"
  by (auto simp: isupper_def islower_def)

text \<open>
  C3 (as amended). In \<^verbatim>\<open>nlp.combine_with_previous\<close> the short-fragment rule fires
  exactly when the current span has fewer than 3 tokens and (its first character is
  lowercase or the previous text contains a closing parenthesis), and then the
  classifier returns True; for a current span of fewer than 3 tokens whose first
  character is uppercase and whose predecessor has no closing parenthesis the rule
  does not fire. In \<^verbatim>\<open>Document.combine_with_previous\<close> the short rule has no such
  condition: it returns True whenever the current span has fewer than 3 tokens.
\<close>

theorem short_fragment_rule_exact:
  "((short_fragment_rule previous current = Inr True) =
      (span_len current < 3 \<and>
        (\<exists>c r. span_text current = c # r \<and> (islower c \<or> CHR '')'' \<in> set (span_text previous)))))
   \<and> (short_fragment_rule previous current = Inr True \<longrightarrow>
        combine_with_previous previous current = Inr True)
   \<and> (span_len current < 3 \<and> (\<exists>c r. span_text current = c # r \<and> isupper c)
        \<and> CHR '')'' \<notin> set (span_text previous) \<longrightarrow>
        short_fragment_rule previous current = Inr False)
   \<and> (span_len current < 3 \<longrightarrow> Document_combine_with_previous previous current)"
  by (cases "span_text current")
     (auto simp: short_fragment_rule_def combine_with_previous_def first_char_def
        has_close_paren_def Document_combine_with_previous_def dest: upper_not_lower)

theorem short_fragment_rule_exact_witness:
  "span_len (doc_slice doc_hi_ok 2 3) < 3
   \<and> short_fragment_rule (doc_slice doc_hi_ok 0 2) (doc_slice doc_hi_ok 2 3) = Inr True
   \<and> combine_with_previous (doc_slice doc_hi_ok 0 2) (doc_slice doc_hi_ok 2 3) = Inr True
   \<and> Document_combine_with_previous (doc_slice doc_hi_ok 0 2) (doc_slice doc_hi_ok 2 3)
   \<and> span_len (doc_slice doc_it_ended 3 4) < 3
   \<and> (\<exists>c r. span_text (doc_slice doc_it_ended 3 4) = c # r \<and> isupper c)
   \<and> CHR '')'' \<notin> set (span_text (doc_slice doc_it_ended 0 3))
   \<and> short_fragment_rule (doc_slice doc_it_ended 0 3) (doc_slice doc_it_ended 3 4) = Inr False"
proof -
  have a: "span_len (doc_slice doc_hi_ok 2 3) < 3"
    by (simp add: doc_hi_ok_def span_defs)
  have b: "\<exists>c r. span_text (doc_slice doc_hi_ok 2 3) = c # r
             \<and> (islower c \<or> CHR '')'' \<in> set (span_text (doc_slice doc_hi_ok 0 2)))"
    by (simp add: doc_hi_ok_def span_defs islower_def)
  have c: "span_len (doc_slice doc_it_ended 3 4) < 3"
    by (simp add: doc_it_ended_def span_defs)
  have d: "\<exists>c r. span_text (doc_slice doc_it_ended 3 4) = c # r \<and> isupper c"
    by (simp add: doc_it_ended_def span_defs isupper_def)
  have e: "CHR '')'' \<notin> set (span_text (doc_slice doc_it_ended 0 3))"
    by (simp add: doc_it_ended_def span_defs)
  show ?thesis
    using a b c d e
      short_fragment_rule_exact [of "doc_slice doc_hi_ok 0 2" "doc_slice doc_hi_ok 2 3"]
      short_fragment_rule_exact [of "doc_slice doc_it_ended 0 3" "doc_slice doc_it_ended 3 4"]
    by blast
qed

text \<open>
  On "It ended. Hi" the current span "Hi" has one token, starts with an uppercase
  letter, and the previous text has no closing parenthesis and ends in a full stop;
  \<^verbatim>\<open>Document.combine_with_previous\<close> still returns True through its short rule.
\<close>

theorem Document_short_rule_ignores_case:
  "span_len (doc_slice doc_it_ended 3 4) < 3
   \<and> first_char (span_text (doc_slice doc_it_ended 3 4)) = Inr CHR ''H''
   \<and> isupper CHR ''H''
   \<and> \<not> has_close_paren (span_text (doc_slice doc_it_ended 0 3))
   \<and> ends_with_punct (span_text (doc_slice doc_it_ended 0 3))
   \<and> Document_combine_with_previous (doc_slice doc_it_ended 0 3) (doc_slice doc_it_ended 3 4)"
  by (simp add: doc_it_ended_def span_defs char_defs rule_defs)

section \<open>The missing-terminal-punctuation rule\<close>

lemma match_at_end_iff:
  "match_at_end ps s \<longleftrightarrow> (\<exists>pre suf. s = pre @ suf \<and> list_all2 (\<lambda>p c. p c) ps suf)"
proof
  assume m: "match_at_end ps s"
  let ?k = "length s - length ps"
  have "s = take ?k s @ drop ?k s" by simp
  with m show "\<exists>pre suf. s = pre @ suf \<and> list_all2 (\<lambda>p c. p c) ps suf"
    unfolding match_at_end_def by blast
next
  assume "\<exists>pre suf. s = pre @ suf \<and> list_all2 (\<lambda>p c. p c) ps suf"
  then obtain pre suf where s: "s = pre @ suf" and a: "list_all2 (\<lambda>p c. p c) ps suf"
    by blast
  from a have "length ps = length suf" by (rule list_all2_lengthD)
  with s a show "match_at_end ps s"
    by (simp add: match_at_end_def)
qed

lemma search_end_iff:
  "search_end ps s \<longleftrightarrow>
     (\<exists>pre suf nl. s = pre @ suf @ nl \<and> list_all2 (\<lambda>p c. p c) ps suf \<and> (nl = [] \<or> nl = [CHR 0x0A]))"
proof
  assume "search_end ps s"
  then consider "match_at_end ps s"
    | "s \<noteq> []" "last s = CHR 0x0A" "match_at_end ps (butlast s)"
    unfolding search_end_def by blast
  then show "\<exists>pre suf nl. s = pre @ suf @ nl \<and> list_all2 (\<lambda>p c. p c) ps suf \<and> (nl = [] \<or> nl = [CHR 0x0A])"
  proof cases
    case 1
    then obtain pre suf where "s = pre @ suf @ []" "list_all2 (\<lambda>p c. p c) ps suf"
      unfolding match_at_end_iff by auto
    then show ?thesis by blast
  next
    case 2
    from 2(3) obtain pre suf where b: "butlast s = pre @ suf" and a: "list_all2 (\<lambda>p c. p c) ps suf"
      unfolding match_at_end_iff by auto
    from 2(1,2) have "s = butlast s @ [CHR 0x0A]"
      by (metis append_butlast_last_id)
    with b have "s = pre @ suf @ [CHR 0x0A]" by simp
    with a show ?thesis by blast
  qed
next
  assume "\<exists>pre suf nl. s = pre @ suf @ nl \<and> list_all2 (\<lambda>p c. p c) ps suf \<and> (nl = [] \<or> nl = [CHR 0x0A])"
  then obtain pre suf nl where s: "s = pre @ suf @ nl" and a: "list_all2 (\<lambda>p c. p c) ps suf"
    and nl: "nl = [] \<or> nl = [CHR 0x0A]" by blast
  from nl show "search_end ps s"
  proof
    assume "nl = []"
    with s a have "match_at_end ps s" unfolding match_at_end_iff by auto
    then show ?thesis by (simp add: search_end_def)
  next
    assume n: "nl = [CHR 0x0A]"
    with s have "butlast s = pre @ suf" "s \<noteq> []" "last s = CHR 0x0A"
      by (simp_all add: butlast_append)
    with a show ?thesis unfolding search_end_def match_at_end_iff by blast
  qed
qed

lemma ends_with_punct_iff:
  "ends_with_punct s \<longleftrightarrow>
     (\<exists>pre p tail nl. s = pre @ p # tail @ nl \<and> p \<in> {CHR ''.'', CHR ''?'', CHR ''!''}
        \<and> length tail \<le> 2
        \<and> ((\<forall>c\<in>set tail. \<not> isspace c) \<or> (\<forall>c\<in>set tail. isspace c))
        \<and> (nl = [] \<or> nl = [CHR 0x0A]))"
  (is "?L \<longleftrightarrow> ?R")
proof
  assume ?L
  then consider
      "search_end [final_punct] s"
    | "search_end [final_punct, nonspace] s"
    | "search_end [final_punct, nonspace, nonspace] s"
    | "search_end [final_punct, isspace] s"
    | "search_end [final_punct, isspace, isspace] s"
    unfolding ends_with_punct_def by blast
  then show ?R
  proof cases
    case 1
    then obtain pre p nl where "s = pre @ p # [] @ nl" "final_punct p" "nl = [] \<or> nl = [CHR 0x0A]"
      unfolding search_end_iff by (auto simp: list_all2_Cons1)
    then show ?thesis unfolding final_punct_def
      by (intro exI[of _ pre] exI[of _ p] exI[of _ "[]"] exI[of _ nl]) auto
  next
    case 2
    then obtain pre p a nl where "s = pre @ p # [a] @ nl" "final_punct p" "nonspace a" "nl = [] \<or> nl = [CHR 0x0A]"
      unfolding search_end_iff by (auto simp: list_all2_Cons1)
    then show ?thesis unfolding final_punct_def nonspace_def
      by (intro exI[of _ pre] exI[of _ p] exI[of _ "[a]"] exI[of _ nl]) auto
  next
    case 3
    then obtain pre p a b nl where "s = pre @ p # [a, b] @ nl" "final_punct p" "nonspace a" "nonspace b" "nl = [] \<or> nl = [CHR 0x0A]"
      unfolding search_end_iff by (auto simp: list_all2_Cons1)
    then show ?thesis unfolding final_punct_def nonspace_def
      by (intro exI[of _ pre] exI[of _ p] exI[of _ "[a, b]"] exI[of _ nl]) auto
  next
    case 4
    then obtain pre p a nl where "s = pre @ p # [a] @ nl" "final_punct p" "isspace a" "nl = [] \<or> nl = [CHR 0x0A]"
      unfolding search_end_iff by (auto simp: list_all2_Cons1)
    then show ?thesis unfolding final_punct_def
      by (intro exI[of _ pre] exI[of _ p] exI[of _ "[a]"] exI[of _ nl]) auto
  next
    case 5
    then obtain pre p a b nl where "s = pre @ p # [a, b] @ nl" "final_punct p" "isspace a" "isspace b" "nl = [] \<or> nl = [CHR 0x0A]"
      unfolding search_end_iff by (auto simp: list_all2_Cons1)
    then show ?thesis unfolding final_punct_def
      by (intro exI[of _ pre] exI[of _ p] exI[of _ "[a, b]"] exI[of _ nl]) auto
  qed
next
  assume ?R
  then obtain pre p tail nl where s: "s = pre @ p # tail @ nl"
    and p: "final_punct p" and len: "length tail \<le> 2"
    and cls: "(\<forall>c\<in>set tail. \<not> isspace c) \<or> (\<forall>c\<in>set tail. isspace c)"
    and nl: "nl = [] \<or> nl = [CHR 0x0A]"
    unfolding final_punct_def by auto
  from len consider "tail = []" | a where "tail = [a]" | a b where "tail = [a, b]"
    by (cases tail rule: list.exhaust; simp; (cases "tl tail"; simp)?)
  then show ?L
  proof cases
    case 1
    with s p nl have "search_end [final_punct] s"
      unfolding search_end_iff
      by (intro exI[of _ pre] exI[of _ "[p]"] exI[of _ nl]) simp
    then show ?thesis by (simp add: ends_with_punct_def)
  next
    case 2
    from cls 2 have "nonspace a \<or> isspace a" by (simp add: nonspace_def)
    then show ?thesis
    proof
      assume "nonspace a"
      with s p nl 2 have "search_end [final_punct, nonspace] s"
        unfolding search_end_iff
        by (intro exI[of _ pre] exI[of _ "[p, a]"] exI[of _ nl]) simp
      then show ?thesis by (simp add: ends_with_punct_def)
    next
      assume "isspace a"
      with s p nl 2 have "search_end [final_punct, isspace] s"
        unfolding search_end_iff
        by (intro exI[of _ pre] exI[of _ "[p, a]"] exI[of _ nl]) simp
      then show ?thesis by (simp add: ends_with_punct_def)
    qed
  next
    case 3
    from cls 3 have "(nonspace a \<and> nonspace b) \<or> (isspace a \<and> isspace b)" by (simp add: nonspace_def)
    then show ?thesis
    proof
      assume "nonspace a \<and> nonspace b"
      with s p nl 3 have "search_end [final_punct, nonspace, nonspace] s"
        unfolding search_end_iff
        by (intro exI[of _ pre] exI[of _ "[p, a, b]"] exI[of _ nl]) simp
      then show ?thesis by (simp add: ends_with_punct_def)
    next
      assume "isspace a \<and> isspace b"
      with s p nl 3 have "search_end [final_punct, isspace, isspace] s"
        unfolding search_end_iff
        by (intro exI[of _ pre] exI[of _ "[p, a, b]"] exI[of _ nl]) simp
      then show ?thesis by (simp add: ends_with_punct_def)
    qed
  qed
qed

lemma alnum_not_space: "isalnum c \<Longrightarrow> \<not> isspace c"
  by (auto simp: isalnum_def islower_def isupper_def isspace_def)


text \<open>
  C4 (as amended). The missing-terminal-punctuation rule fires exactly when the
  previous span's text does not end (a single final newline apart) in \<^verbatim>\<open>.\<close>,
  \<^verbatim>\<open>?\<close> or \<^verbatim>\<open>!\<close> followed by nothing, by one or two non-whitespace characters, or by
  one or two whitespace characters. Alphanumeric characters are non-whitespace, so for
  a previous text ending in terminal punctuation followed by one or two alphanumeric
  characters the rule does not fire. When the earlier rules of
  \<^verbatim>\<open>nlp.combine_with_previous\<close> do not fire its result is this rule's, and so is the
  result of \<^verbatim>\<open>Document.combine_with_previous\<close> on a current span of 3 or more tokens.
\<close>

theorem missing_terminal_punct_rule_exact:
  "(missing_terminal_punct_rule previous \<longleftrightarrow>
      \<not> (\<exists>pre p tail nl. span_text previous = pre @ p # tail @ nl
            \<and> p \<in> {CHR ''.'', CHR ''?'', CHR ''!''}
            \<and> length tail \<le> 2
            \<and> ((\<forall>c\<in>set tail. \<not> isspace c) \<or> (\<forall>c\<in>set tail. isspace c))
            \<and> (nl = [] \<or> nl = [CHR 0x0A])))
   \<and> ((\<exists>pre p tail. span_text previous = pre @ p # tail
            \<and> p \<in> {CHR ''.'', CHR ''?'', CHR ''!''}
            \<and> tail \<noteq> [] \<and> length tail \<le> 2 \<and> (\<forall>c\<in>set tail. isalnum c)) \<longrightarrow>
        \<not> missing_terminal_punct_rule previous)
   \<and> (short_fragment_rule previous current = Inr False \<and> \<not> short_close_paren_rule current
        \<and> short_capitalized_previous_rule previous = Inr False \<longrightarrow>
        combine_with_previous previous current = Inr (missing_terminal_punct_rule previous))
   \<and> (\<not> span_len current < 3 \<longrightarrow>
        Document_combine_with_previous previous current = missing_terminal_punct_rule previous)"
proof (intro conjI)
  show "missing_terminal_punct_rule previous \<longleftrightarrow>
      \<not> (\<exists>pre p tail nl. span_text previous = pre @ p # tail @ nl
            \<and> p \<in> {CHR ''.'', CHR ''?'', CHR ''!''}
            \<and> length tail \<le> 2
            \<and> ((\<forall>c\<in>set tail. \<not> isspace c) \<or> (\<forall>c\<in>set tail. isspace c))
            \<and> (nl = [] \<or> nl = [CHR 0x0A]))"
    unfolding missing_terminal_punct_rule_def ends_with_punct_iff ..
next
  show "(\<exists>pre p tail. span_text previous = pre @ p # tail
            \<and> p \<in> {CHR ''.'', CHR ''?'', CHR ''!''}
            \<and> tail \<noteq> [] \<and> length tail \<le> 2 \<and> (\<forall>c\<in>set tail. isalnum c)) \<longrightarrow>
        \<not> missing_terminal_punct_rule previous"
  proof
    assume "\<exists>pre p tail. span_text previous = pre @ p # tail
            \<and> p \<in> {CHR ''.'', CHR ''?'', CHR ''!''}
            \<and> tail \<noteq> [] \<and> length tail \<le> 2 \<and> (\<forall>c\<in>set tail. isalnum c)"
    then obtain pre p tail where h: "span_text previous = pre @ p # tail @ []"
      "p \<in> {CHR ''.'', CHR ''?'', CHR ''!''}" "length tail \<le> 2" "\<forall>c\<in>set tail. isalnum c"
      by auto
    from h(4) have "\<forall>c\<in>set tail. \<not> isspace c" by (blast dest: alnum_not_space)
    with h have "ends_with_punct (span_text previous)"
      unfolding ends_with_punct_iff by blast
    then show "\<not> missing_terminal_punct_rule previous"
      by (simp add: missing_terminal_punct_rule_def)
  qed
next
  show "short_fragment_rule previous current = Inr False \<and> \<not> short_close_paren_rule current
        \<and> short_capitalized_previous_rule previous = Inr False \<longrightarrow>
        combine_with_previous previous current = Inr (missing_terminal_punct_rule previous)"
    by (simp add: combine_with_previous_def)
next
  show "\<not> span_len current < 3 \<longrightarrow>
        Document_combine_with_previous previous current = missing_terminal_punct_rule previous"
    by (simp add: Document_combine_with_previous_def missing_terminal_punct_rule_def)
qed

theorem missing_terminal_punct_rule_exact_witness:
  "(\<exists>pre p tail. span_text (doc_slice doc_v1 0 3) = pre @ p # tail
       \<and> p \<in> {CHR ''.'', CHR ''?'', CHR ''!''}
       \<and> tail \<noteq> [] \<and> length tail \<le> 2 \<and> (\<forall>c\<in>set tail. isalnum c))
   \<and> \<not> missing_terminal_punct_rule (doc_slice doc_v1 0 3)
   \<and> short_fragment_rule (doc_slice doc_no_punct 0 3) (doc_slice doc_no_punct 3 6) = Inr False
   \<and> \<not> short_close_paren_rule (doc_slice doc_no_punct 3 6)
   \<and> short_capitalized_previous_rule (doc_slice doc_no_punct 0 3) = Inr False
   \<and> \<not> span_len (doc_slice doc_no_punct 3 6) < 3
   \<and> combine_with_previous (doc_slice doc_no_punct 0 3) (doc_slice doc_no_punct 3 6)
       = Inr (missing_terminal_punct_rule (doc_slice doc_no_punct 0 3))
   \<and> Document_combine_with_previous (doc_slice doc_no_punct 0 3) (doc_slice doc_no_punct 3 6)
       = missing_terminal_punct_rule (doc_slice doc_no_punct 0 3)"
proof -
  have t: "span_text (doc_slice doc_v1 0 3) = ''It is v'' @ CHR ''.'' # ''1''"
    by (simp add: doc_v1_def span_defs)
  have a: "\<exists>pre p tail. span_text (doc_slice doc_v1 0 3) = pre @ p # tail
       \<and> p \<in> {CHR ''.'', CHR ''?'', CHR ''!''}
       \<and> tail \<noteq> [] \<and> length tail \<le> 2 \<and> (\<forall>c\<in>set tail. isalnum c)"
    unfolding t
    by (intro exI[of _ "''It is v''"] exI[of _ "CHR ''.''"] exI[of _ "''1''"])
       (simp add: isalnum_def)
  have b: "short_fragment_rule (doc_slice doc_no_punct 0 3) (doc_slice doc_no_punct 3 6) = Inr False"
    by (simp add: doc_no_punct_def span_defs short_fragment_rule_def)
  have c: "\<not> short_close_paren_rule (doc_slice doc_no_punct 3 6)"
    by (simp add: doc_no_punct_def span_defs short_close_paren_rule_def has_close_paren_def)
  have d: "short_capitalized_previous_rule (doc_slice doc_no_punct 0 3) = Inr False"
    by (simp add: doc_no_punct_def span_defs short_capitalized_previous_rule_def)
  have e: "\<not> span_len (doc_slice doc_no_punct 3 6) < 3"
    by (simp add: doc_no_punct_def span_defs)
  show ?thesis
    using a b c d e
      missing_terminal_punct_rule_exact [of "doc_slice doc_v1 0 3"]
      missing_terminal_punct_rule_exact [of "doc_slice doc_no_punct 0 3" "doc_slice doc_no_punct 3 6"]
    by blast
qed

text \<open>
  On "It is v.1 Then we left" the previous text ends in a full stop followed by the
  digit 1; the rule does not fire and neither classifier merges.
\<close>

theorem alnum_tail_does_not_merge:
  "span_text (doc_slice doc_v1 0 3) = ''It is v.1''
   \<and> isalnum CHR ''1''
   \<and> \<not> missing_terminal_punct_rule (doc_slice doc_v1 0 3)
   \<and> combine_with_previous (doc_slice doc_v1 0 3) (doc_slice doc_v1 3 6) = Inr False
   \<and> \<not> Document_combine_with_previous (doc_slice doc_v1 0 3) (doc_slice doc_v1 3 6)"
  by (simp add: doc_v1_def span_defs char_defs rule_defs)

section \<open>Totality of the classifier\<close>

lemma span_text_empty_tokens:
  assumes "list_all (\<lambda>t. tok_text t \<noteq> []) (tokens (sdoc sp))" and "span_text sp = []"
  shows "span_tokens sp = []"
proof (rule ccontr)
  assume ne: "span_tokens sp \<noteq> []"
  then have "last (span_tokens sp) \<in> set (span_tokens sp)" by simp
  also have "set (span_tokens sp) \<subseteq> set (tokens (sdoc sp))"
    unfolding span_tokens_def
    by (meson set_take_subset set_drop_subset subset_trans)
  finally have "tok_text (last (span_tokens sp)) \<noteq> []"
    using assms(1) by (simp add: list_all_iff)
  moreover from ne assms(2) have "tok_text (last (span_tokens sp)) = []"
    by (cases "span_tokens sp") (simp_all add: span_text_def)
  ultimately show False by simp
qed

lemma doc_slice_empty_len:
  assumes "list_all (\<lambda>t. tok_text t \<noteq> []) (tokens d)" and "span_text (doc_slice d start stop) = []"
  shows "span_len (doc_slice d start stop) = 0"
proof -
  have "sdoc (doc_slice d start stop) = d" by (simp add: doc_slice_def Let_def)
  with assms have "span_tokens (doc_slice d start stop) = []"
    using span_text_empty_tokens [of "doc_slice d start stop"] by simp
  then show ?thesis
    by (auto simp: span_tokens_def doc_slice_def Let_def span_len_def min_def max_def split: if_splits)
qed

lemma combine_with_previous_returns:
  assumes "span_text previous \<noteq> []" and "span_text current \<noteq> []"
  shows "\<exists>b. combine_with_previous previous current = Inr b"
proof -
  from assms obtain a as b bs where "span_text previous = a # as" "span_text current = b # bs"
    by (metis list.exhaust)
  then show ?thesis
    by (auto simp: combine_with_previous_def short_fragment_rule_def
        short_capitalized_previous_rule_def first_char_def)
qed

text \<open>
  C9 (as amended). \<^verbatim>\<open>nlp.combine_with_previous\<close> can raise only on an empty text. It
  reads the current span's first character when the current span has fewer than 3
  tokens, and the previous span's first character when the previous span has fewer
  than 3 tokens and the first two rules have not fired. So for every pair of spans
  with non-empty texts it returns a boolean without raising; an empty current text
  of fewer than 3 tokens, in particular every empty slice of a document whose tokens
  have non-empty text, raises IndexError; and so does an empty previous text of
  fewer than 3 tokens once the first two rules have not fired.
\<close>

theorem combine_with_previous_total_on_nonempty:
  "(span_text previous \<noteq> [] \<and> span_text current \<noteq> [] \<longrightarrow>
      (\<exists>b. combine_with_previous previous current = Inr b))
   \<and> (span_text current = [] \<and> span_len current < 3 \<longrightarrow>
      combine_with_previous previous current = Inl IndexError)
   \<and> (list_all (\<lambda>t. tok_text t \<noteq> []) (tokens d) \<and> span_text (doc_slice d start stop) = [] \<longrightarrow>
      combine_with_previous previous (doc_slice d start stop) = Inl IndexError)
   \<and> (span_text previous = [] \<and> span_len previous < 3
        \<and> short_fragment_rule previous current = Inr False
        \<and> \<not> short_close_paren_rule current \<longrightarrow>
      combine_with_previous previous current = Inl IndexError)"
proof (intro conjI impI)
  assume "span_text previous \<noteq> [] \<and> span_text current \<noteq> []"
  then show "\<exists>b. combine_with_previous previous current = Inr b"
    by (simp add: combine_with_previous_returns)
next
  assume "span_text current = [] \<and> span_len current < 3"
  then show "combine_with_previous previous current = Inl IndexError"
    by (simp add: combine_with_previous_def short_fragment_rule_def first_char_def)
next
  assume h: "list_all (\<lambda>t. tok_text t \<noteq> []) (tokens d) \<and> span_text (doc_slice d start stop) = []"
  then have "span_len (doc_slice d start stop) = 0"
    using doc_slice_empty_len by blast
  with h show "combine_with_previous previous (doc_slice d start stop) = Inl IndexError"
    by (simp add: combine_with_previous_def short_fragment_rule_def first_char_def)
next
  assume "span_text previous = [] \<and> span_len previous < 3
        \<and> short_fragment_rule previous current = Inr False
        \<and> \<not> short_close_paren_rule current"
  then show "combine_with_previous previous current = Inl IndexError"
    by (simp add: combine_with_previous_def short_capitalized_previous_rule_def first_char_def)
qed

theorem combine_with_previous_total_on_nonempty_witness:
  "span_text (doc_slice doc_hi_ok 0 2) \<noteq> [] \<and> span_text (doc_slice doc_hi_ok 2 3) \<noteq> []
   \<and> (\<exists>b. combine_with_previous (doc_slice doc_hi_ok 0 2) (doc_slice doc_hi_ok 2 3) = Inr b)
   \<and> list_all (\<lambda>t. tok_text t \<noteq> []) (tokens doc_hi_ok)
   \<and> span_text (doc_slice doc_hi_ok 3 3) = []
   \<and> span_len (doc_slice doc_hi_ok 3 3) < 3
   \<and> combine_with_previous (doc_slice doc_hi_ok 0 2) (doc_slice doc_hi_ok 3 3) = Inl IndexError
   \<and> span_text (doc_slice doc_no_punct 6 6) = []
   \<and> span_len (doc_slice doc_no_punct 6 6) < 3
   \<and> short_fragment_rule (doc_slice doc_no_punct 6 6) (doc_slice doc_no_punct 3 6) = Inr False
   \<and> \<not> short_close_paren_rule (doc_slice doc_no_punct 3 6)
   \<and> combine_with_previous (doc_slice doc_no_punct 6 6) (doc_slice doc_no_punct 3 6)
       = Inl IndexError"
proof -
  have a: "span_text (doc_slice doc_hi_ok 0 2) \<noteq> [] \<and> span_text (doc_slice doc_hi_ok 2 3) \<noteq> []"
    by (simp add: doc_hi_ok_def span_defs)
  have b: "list_all (\<lambda>t. tok_text t \<noteq> []) (tokens doc_hi_ok)
           \<and> span_text (doc_slice doc_hi_ok 3 3) = []
           \<and> span_len (doc_slice doc_hi_ok 3 3) < 3"
    by (simp add: doc_hi_ok_def span_defs)
  have c: "span_text (doc_slice doc_no_punct 6 6) = []
     \<and> span_len (doc_slice doc_no_punct 6 6) < 3
     \<and> short_fragment_rule (doc_slice doc_no_punct 6 6) (doc_slice doc_no_punct 3 6) = Inr False
     \<and> \<not> short_close_paren_rule (doc_slice doc_no_punct 3 6)"
    by (simp add: doc_no_punct_def span_defs char_defs
        short_fragment_rule_def short_close_paren_rule_def)
  show ?thesis
    using a b c
      combine_with_previous_total_on_nonempty
        [of "doc_slice doc_hi_ok 0 2" "doc_slice doc_hi_ok 2 3" doc_hi_ok 3 3]
      combine_with_previous_total_on_nonempty
        [of "doc_slice doc_no_punct 6 6" "doc_slice doc_no_punct 3 6"]
    by blast
qed

text \<open>
  On "Hi. ok" the current span "ok" is short and the previous span is empty: the
  first rule fires and the classifier returns True, the previous span's first
  character is not read. On "We all left Then we stayed" the current span has 3
  tokens and the previous span is empty: the previous span's first character is read
  and the classifier raises.
\<close>

theorem previous_first_char_read:
  "span_len (doc_slice doc_hi_ok 2 3) < 3
   \<and> span_text (doc_slice doc_hi_ok 3 3) = []
   \<and> combine_with_previous (doc_slice doc_hi_ok 3 3) (doc_slice doc_hi_ok 2 3) = Inr True
   \<and> \<not> span_len (doc_slice doc_no_punct 3 6) < 3
   \<and> span_text (doc_slice doc_no_punct 6 6) = []
   \<and> combine_with_previous (doc_slice doc_no_punct 6 6) (doc_slice doc_no_punct 3 6)
       = Inl IndexError"
  by (simp add: doc_hi_ok_def doc_no_punct_def span_defs char_defs rule_defs)

section \<open>The partition invariant of sentence_segmenter\<close>

lemma chain_append: "chain a (xs @ ys) c \<longleftrightarrow> (\<exists>b. chain a xs b \<and> chain b ys c)"
  by (induction xs arbitrary: a) auto

lemma chain_snoc: "chain a (xs @ [x]) c \<longleftrightarrow> chain a xs (fst x) \<and> fst x \<le> snd x \<and> snd x = c"
  by (auto simp: chain_append)

lemma chain_last: "chain a xs b \<Longrightarrow> xs \<noteq> [] \<Longrightarrow> snd (last xs) = b"
  by (induction xs arbitrary: a) (auto split: if_splits)

lemma chain_le: "chain a xs b \<Longrightarrow> a \<le> b"
proof (induction xs arbitrary: a)
  case Nil
  then show ?case by simp
next
  case (Cons x xs)
  then have "a \<le> snd x" "snd x \<le> b" by auto
  then show ?case by simp
qed

lemma chain_bounds: "chain a xs b \<Longrightarrow> x \<in> set xs \<Longrightarrow> a \<le> fst x \<and> snd x \<le> b"
proof (induction xs arbitrary: a)
  case Nil then show ?case by simp
next
  case (Cons y ys)
  show ?case
  proof (cases "x = y")
    case True
    with Cons.prems chain_le [of "snd y" ys b] show ?thesis by auto
  next
    case False
    with Cons.prems have "x \<in> set ys" "chain (snd y) ys b" "a \<le> snd y" by auto
    with Cons.IH [of "snd y"] show ?thesis by auto
  qed
qed

lemma doc_slice_text_nonempty:
  assumes wf: "list_all (\<lambda>t. tok_text t \<noteq> []) (tokens d)"
    and "start < stop" "stop \<le> length (tokens d)"
  shows "span_text (doc_slice d start stop) \<noteq> []"
proof
  assume e: "span_text (doc_slice d start stop) = []"
  have "sdoc (doc_slice d start stop) = d" by (simp add: doc_slice_def Let_def)
  with wf e have "span_tokens (doc_slice d start stop) = []"
    using span_text_empty_tokens [of "doc_slice d start stop"] by simp
  with assms(2,3) show False
    by (auto simp: span_tokens_def doc_slice_def Let_def min_def max_def split: if_splits)
qed

lemma merge_step_append:
  "merge_step d acc sen = Inr acc' \<Longrightarrow> acc' = acc @ [sen]"
  by (auto simp: merge_step_def Let_def split: if_splits sum.splits)

lemma merge_loop_append:
  "merge_loop d acc cands = Inr r \<Longrightarrow> r = acc @ cands"
proof (induction cands arbitrary: acc)
  case Nil
  then show ?case by simp
next
  case (Cons c cs)
  then obtain acc' where s: "merge_step d acc c = Inr acc'" and l: "merge_loop d acc' cs = Inr r"
    by (auto split: sum.splits)
  from s have "acc' = acc @ [c]" by (rule merge_step_append)
  with Cons.IH [OF l] show ?case by simp
qed

lemma merge_step_total:
  assumes wf: "list_all (\<lambda>t. tok_text t \<noteq> []) (tokens d)"
    and acc: "\<forall>x\<in>set acc. fst x < snd x \<and> snd x \<le> length (tokens d)"
    and sen: "fst sen < snd sen" "snd sen \<le> length (tokens d)"
  shows "merge_step d acc sen = Inr (acc @ [sen])"
proof (cases "acc = []")
  case True
  then show ?thesis by (simp add: merge_step_def)
next
  case False
  then have "last acc \<in> set acc" by simp
  with acc have l: "fst (last acc) < snd (last acc)" "snd (last acc) \<le> length (tokens d)" by auto
  have "span_text (doc_slice d (fst (last acc)) (snd (last acc))) \<noteq> []"
    using wf l by (rule doc_slice_text_nonempty)
  moreover have "span_text (doc_slice d (fst sen) (snd sen)) \<noteq> []"
    using wf sen by (rule doc_slice_text_nonempty)
  ultimately obtain b where
    "combine_with_previous (doc_slice d (fst (last acc)) (snd (last acc)))
       (doc_slice d (fst sen) (snd sen)) = Inr b"
    using combine_with_previous_returns by blast
  with False show ?thesis by (simp add: merge_step_def Let_def)
qed

lemma merge_loop_total:
  assumes wf: "list_all (\<lambda>t. tok_text t \<noteq> []) (tokens d)"
  shows "\<forall>x\<in>set acc. fst x < snd x \<and> snd x \<le> length (tokens d) \<Longrightarrow>
         \<forall>x\<in>set cands. fst x < snd x \<and> snd x \<le> length (tokens d) \<Longrightarrow>
         merge_loop d acc cands = Inr (acc @ cands)"
proof (induction cands arbitrary: acc)
  case Nil
  then show ?case by simp
next
  case (Cons c cs)
  from Cons.prems have "merge_step d acc c = Inr (acc @ [c])"
    using merge_step_total [OF wf, of acc c] by auto
  moreover from Cons.prems have "merge_loop d (acc @ [c]) cs = Inr ((acc @ [c]) @ cs)"
    by (intro Cons.IH) auto
  ultimately show ?case by simp
qed

lemma shift_step_chain:
  assumes fin: "chain 0 final (fst x)" and x: "fst x < snd x" "snd x \<le> length (tokens d)"
  shows "\<exists>final'. shift_step d final x = Inr final' \<and> chain 0 final' (snd x)"
proof (cases "0 < fst x \<and> \<not> has_nonspace (tok_text (tokens d ! fst x))")
  case False
  with x have "shift_step d final x = Inr (final @ [x])"
    by (auto simp: shift_step_def Let_def doc_index_def)
  moreover from fin x have "chain 0 (final @ [x]) (snd x)" by (simp add: chain_snoc)
  ultimately show ?thesis by blast
next
  case True
  with fin have ne: "final \<noteq> []" by (cases final) auto
  have l: "snd (last final) = fst x" using chain_last [OF fin ne] .
  from ne have fl: "final = butlast final @ [last final]" by simp
  from True x ne have s: "shift_step d final x =
      Inr (butlast final @ [(fst (last final), snd (last final) + 1)] @ [(fst x + 1, snd x)])"
    by (auto simp: shift_step_def Let_def doc_index_def)
  from fin fl have "chain 0 (butlast final @ [last final]) (fst x)" by simp
  then have "chain 0 (butlast final) (fst (last final))" "fst (last final) \<le> snd (last final)"
    unfolding chain_snoc by auto
  with l x have "chain 0 (butlast final @ [(fst (last final), snd (last final) + 1)] @ [(fst x + 1, snd x)]) (snd x)"
    by (auto simp: chain_append)
  with s show ?thesis by blast
qed

lemma shift_loop_chain:
  "chain 0 final a \<Longrightarrow> chain a rest n \<Longrightarrow> list_all (\<lambda>x. fst x < snd x) rest \<Longrightarrow>
   n \<le> length (tokens d) \<Longrightarrow>
   \<exists>out. shift_loop d final rest = Inr out \<and> chain 0 out n"
proof (induction rest arbitrary: final a)
  case Nil
  then show ?case by simp
next
  case (Cons x xs)
  from Cons.prems have x: "fst x = a" "fst x < snd x" "chain (snd x) xs n" by auto
  with chain_le [of "snd x" xs n] Cons.prems have le: "snd x \<le> length (tokens d)" by simp
  from Cons.prems x have "chain 0 final (fst x)" by simp
  from shift_step_chain [OF this x(2) le]
  obtain final' where f: "shift_step d final x = Inr final'" "chain 0 final' (snd x)" by blast
  from Cons.IH [OF f(2) x(3)] Cons.prems
  obtain out where "shift_loop d final' xs = Inr out" "chain 0 out n" by auto
  with f show ?case by simp
qed

lemma contract_bounds:
  assumes "parser_contract d"
  shows "\<forall>x\<in>set (sents d). fst x < snd x \<and> snd x \<le> length (tokens d)"
  using assms chain_bounds [of 0 "sents d" "length (tokens d)"]
  by (auto simp: parser_contract_def list_all_iff)

text \<open>
  C2. For every document that meets the parser's contract, \<^verbatim>\<open>sentence_segmenter\<close>
  returns, and the spans after the merge loop as well as the spans it returns after
  the whitespace shift partition the full token range: they are in order, each span's
  end is the next span's start, the first span starts at token 0 and the last ends at
  the token count.
\<close>

theorem sentence_segmenter_partition:
  assumes "parser_contract d"
  shows "\<exists>merged segs.
           merge_loop d [] (sents d) = Inr merged
           \<and> chain 0 merged (length (tokens d))
           \<and> sentence_segmenter d = Inr segs
           \<and> chain 0 segs (length (tokens d))"
proof -
  from assms have wf: "list_all (\<lambda>t. tok_text t \<noteq> []) (tokens d)"
    by (simp add: parser_contract_def)
  have m: "merge_loop d [] (sents d) = Inr (sents d)"
    using merge_loop_total [OF wf, of "[]" "sents d"] contract_bounds [OF assms] by simp
  from assms have c: "chain 0 [] 0" "chain 0 (sents d) (length (tokens d))"
    "list_all (\<lambda>x. fst x < snd x) (sents d)"
    by (simp_all add: parser_contract_def)
  from shift_loop_chain [OF c]
  obtain out where "shift_loop d [] (sents d) = Inr out" "chain 0 out (length (tokens d))"
    by auto
  with m c(2) show ?thesis by (simp add: sentence_segmenter_def)
qed

theorem sentence_segmenter_partition_witness:
  "parser_contract doc_two_spaces
   \<and> (\<exists>merged segs.
         merge_loop doc_two_spaces [] (sents doc_two_spaces) = Inr merged
         \<and> chain 0 merged (length (tokens doc_two_spaces))
         \<and> sentence_segmenter doc_two_spaces = Inr segs
         \<and> chain 0 segs (length (tokens doc_two_spaces)))"
proof -
  have h: "parser_contract doc_two_spaces"
    by (simp add: parser_contract_def doc_two_spaces_def tok_def)
  show ?thesis using h sentence_segmenter_partition [OF h] by blast
qed

section \<open>The whitespace shift\<close>

lemma shift_step_cases:
  assumes fin: "chain 0 final (fst x)" and x: "fst x < snd x" "snd x \<le> length (tokens d)"
  shows "shift_step d final x =
           Inr (if 0 < fst x \<and> \<not> has_nonspace (tok_text (tokens d ! fst x))
                then butlast final @ [(fst (last final), snd (last final) + 1), (fst x + 1, snd x)]
                else final @ [x])"
    and "0 < fst x \<Longrightarrow> final \<noteq> []"
proof -
  show ne: "0 < fst x \<Longrightarrow> final \<noteq> []" using fin by (cases final) auto
  show "shift_step d final x =
           Inr (if 0 < fst x \<and> \<not> has_nonspace (tok_text (tokens d ! fst x))
                then butlast final @ [(fst (last final), snd (last final) + 1), (fst x + 1, snd x)]
                else final @ [x])"
    using x ne by (auto simp: shift_step_def Let_def doc_index_def)
qed

lemma shift_loop_nonempty:
  "chain 0 final a \<Longrightarrow> chain a rest n \<Longrightarrow> list_all (\<lambda>x. fst x < snd x) rest \<Longrightarrow>
   n \<le> length (tokens d) \<Longrightarrow> list_all (\<lambda>x. fst x < snd x) final \<Longrightarrow>
   list_all (\<lambda>x. 0 < fst x \<and> \<not> has_nonspace (tok_text (tokens d ! fst x)) \<longrightarrow> fst x + 1 < snd x) rest \<Longrightarrow>
   \<exists>out. shift_loop d final rest = Inr out \<and> list_all (\<lambda>x. fst x < snd x) out"
proof (induction rest arbitrary: final a)
  case Nil
  then show ?case by simp
next
  case (Cons x xs)
  from Cons.prems have x: "fst x = a" "fst x < snd x" "chain (snd x) xs n" by auto
  with chain_le [of "snd x" xs n] Cons.prems have le: "snd x \<le> length (tokens d)" by simp
  from Cons.prems x have fin: "chain 0 final (fst x)" by simp
  from shift_step_chain [OF fin x(2) le]
  obtain final' where f: "shift_step d final x = Inr final'" "chain 0 final' (snd x)" by blast
  have "list_all (\<lambda>x. fst x < snd x) final'"
  proof (cases "0 < fst x \<and> \<not> has_nonspace (tok_text (tokens d ! fst x))")
    case False
    with shift_step_cases(1) [OF fin x(2) le] f have "final' = final @ [x]" by simp
    with Cons.prems x show ?thesis by simp
  next
    case True
    with shift_step_cases [OF fin x(2) le] f
    have e: "final' = butlast final @ [(fst (last final), snd (last final) + 1), (fst x + 1, snd x)]"
      and ne: "final \<noteq> []" by simp_all
    from ne Cons.prems(5) have "fst (last final) < snd (last final)"
      by (simp add: list_all_iff)
    moreover from Cons.prems(5) have "list_all (\<lambda>x. fst x < snd x) (butlast final)"
      by (auto simp: list_all_iff dest: in_set_butlastD)
    moreover from True Cons.prems(6) have "fst x + 1 < snd x" by simp
    ultimately show ?thesis using e by simp
  qed
  from Cons.IH [OF f(2) x(3) _ _ this] Cons.prems
  obtain out where "shift_loop d final' xs = Inr out" "list_all (\<lambda>x. fst x < snd x) out" by auto
  with f show ?case by simp
qed

lemma shifted_spans_Nil_iff: "shifted_spans d xs = [] \<longleftrightarrow> xs = []"
  by (induction d xs rule: shifted_spans.induct) auto

lemma shifted_spans_snoc:
  "xs \<noteq> [] \<Longrightarrow>
   shifted_spans d (xs @ [x]) =
     butlast (shifted_spans d xs)
       @ [(fst (last (shifted_spans d xs)), snd (last (shifted_spans d xs)) + shifts d x),
          (fst x + shifts d x, snd x)]"
proof (induction d xs rule: shifted_spans.induct)
  case (1 d)
  then show ?case by simp
next
  case (2 d y)
  then show ?case by simp
next
  case (3 d y z rest)
  then have "shifted_spans d (z # rest) \<noteq> []" by (simp add: shifted_spans_Nil_iff)
  with 3 show ?case by simp
qed

lemma shift_loop_snoc:
  "shift_loop d final (xs @ [x]) =
     (case shift_loop d final xs of Inl e \<Rightarrow> Inl e | Inr f \<Rightarrow> shift_step d f x)"
  by (induction xs arbitrary: final) (auto split: sum.splits)

lemma shift_loop_closed:
  "chain 0 xs b \<Longrightarrow> list_all (\<lambda>x. fst x < snd x) xs \<Longrightarrow> b \<le> length (tokens d) \<Longrightarrow>
   shift_loop d [] xs = Inr (shifted_spans d xs)"
proof (induction xs arbitrary: b rule: rev_induct)
  case Nil
  then show ?case by simp
next
  case (snoc x xs)
  from snoc.prems have c: "chain 0 xs (fst x)" and x: "fst x < snd x" "snd x = b"
    and ne: "list_all (\<lambda>x. fst x < snd x) xs"
    by (auto simp: chain_snoc)
  from x snoc.prems have le: "snd x \<le> length (tokens d)" "fst x \<le> length (tokens d)" by simp_all
  from snoc.IH [OF c ne le(2)] have ih: "shift_loop d [] xs = Inr (shifted_spans d xs)" .
  have fin: "chain 0 (shifted_spans d xs) (fst x) \<or> True" by simp
  show ?case
  proof (cases "xs = []")
    case True
    with c have "fst x = 0" by simp
    with True show ?thesis by (simp add: shift_step_def shifts_def prod_eq_iff)
  next
    case False
    then have f: "shifted_spans d xs \<noteq> []" by (simp add: shifted_spans_Nil_iff)
    from x le have i: "fst x < length (tokens d)" by simp
    have "shift_step d (shifted_spans d xs) x =
            Inr (butlast (shifted_spans d xs)
              @ [(fst (last (shifted_spans d xs)), snd (last (shifted_spans d xs)) + shifts d x),
                 (fst x + shifts d x, snd x)])"
    proof (cases "0 < fst x \<and> \<not> has_nonspace (tok_text (tokens d ! fst x))")
      case True
      with f i show ?thesis
        by (simp add: shift_step_def Let_def doc_index_def shifts_def)
    next
      case False
      then have "shift_step d (shifted_spans d xs) x = Inr (shifted_spans d xs @ [x])"
        using i by (auto simp: shift_step_def Let_def doc_index_def)
      moreover from False have "shifts d x = 0" by (auto simp: shifts_def)
      moreover from f have "butlast (shifted_spans d xs) @ [last (shifted_spans d xs)]
          = shifted_spans d xs" by simp
      ultimately show ?thesis
        by (metis (no_types, lifting) add.right_neutral append.assoc append_Cons append_Nil
            prod.collapse)
    qed
    with ih False show ?thesis
      by (simp add: shift_loop_snoc shifted_spans_snoc)
  qed
qed

text \<open>
  C5 (as amended). In the whitespace shift, for every span whose start is after token 0
  and whose starting token's text has no non-whitespace character, that one token is
  reassigned to the previous span (the previous span's end grows by one, the current
  span's start advances by one), whatever the span's length: the shift is never
  skipped. Every other span is appended unchanged. On a document that meets the
  parser's contract the result is therefore, span by span, the candidate's start moved
  by one if the candidate is shifted and its end moved by one if the next candidate is
  shifted; and all resulting spans are non-empty if every shifted span has at least two
  tokens.
\<close>

theorem shifter_behaviour:
  "(0 < fst x \<and> fst x < length (tokens d) \<and> \<not> has_nonspace (tok_text (tokens d ! fst x))
      \<and> final \<noteq> [] \<longrightarrow>
      shift_step d final x =
        Inr (butlast final @ [(fst (last final), snd (last final) + 1), (fst x + 1, snd x)]))
   \<and> (fst x = 0 \<or> (fst x < length (tokens d) \<and> has_nonspace (tok_text (tokens d ! fst x))) \<longrightarrow>
      shift_step d final x = Inr (final @ [x]))
   \<and> (parser_contract d \<longrightarrow>
      sentence_segmenter d = Inr (shifted_spans d (sents d)))
   \<and> (parser_contract d
        \<and> list_all (\<lambda>x. 0 < fst x \<and> \<not> has_nonspace (tok_text (tokens d ! fst x))
                          \<longrightarrow> fst x + 1 < snd x) (sents d) \<longrightarrow>
      (\<exists>segs. sentence_segmenter d = Inr segs \<and> list_all (\<lambda>x. fst x < snd x) segs))"
proof (intro conjI impI)
  assume "0 < fst x \<and> fst x < length (tokens d) \<and> \<not> has_nonspace (tok_text (tokens d ! fst x))
      \<and> final \<noteq> []"
  then show "shift_step d final x =
        Inr (butlast final @ [(fst (last final), snd (last final) + 1), (fst x + 1, snd x)])"
    by (simp add: shift_step_def Let_def doc_index_def)
next
  assume "fst x = 0 \<or> (fst x < length (tokens d) \<and> has_nonspace (tok_text (tokens d ! fst x)))"
  then show "shift_step d final x = Inr (final @ [x])"
    by (auto simp: shift_step_def Let_def doc_index_def)
next
  assume c: "parser_contract d"
  then have wf: "list_all (\<lambda>t. tok_text t \<noteq> []) (tokens d)"
    by (simp add: parser_contract_def)
  have m: "merge_loop d [] (sents d) = Inr (sents d)"
    using merge_loop_total [OF wf, of "[]" "sents d"] contract_bounds [OF c] by simp
  from c have "chain 0 (sents d) (length (tokens d))"
    "list_all (\<lambda>x. fst x < snd x) (sents d)"
    by (simp_all add: parser_contract_def)
  then have "shift_loop d [] (sents d) = Inr (shifted_spans d (sents d))"
    by (rule shift_loop_closed) simp
  with m show "sentence_segmenter d = Inr (shifted_spans d (sents d))"
    by (simp add: sentence_segmenter_def)
next
  assume h: "parser_contract d
        \<and> list_all (\<lambda>x. 0 < fst x \<and> \<not> has_nonspace (tok_text (tokens d ! fst x))
                          \<longrightarrow> fst x + 1 < snd x) (sents d)"
  then have c: "parser_contract d" by simp
  then have wf: "list_all (\<lambda>t. tok_text t \<noteq> []) (tokens d)"
    by (simp add: parser_contract_def)
  have m: "merge_loop d [] (sents d) = Inr (sents d)"
    using merge_loop_total [OF wf, of "[]" "sents d"] contract_bounds [OF c] by simp
  from c have "chain 0 [] 0" "chain 0 (sents d) (length (tokens d))"
    "list_all (\<lambda>x. fst x < snd x) (sents d)"
    by (simp_all add: parser_contract_def)
  from shift_loop_nonempty [OF this] h
  obtain out where "shift_loop d [] (sents d) = Inr out" "list_all (\<lambda>x. fst x < snd x) out"
    by auto
  with m show "\<exists>segs. sentence_segmenter d = Inr segs \<and> list_all (\<lambda>x. fst x < snd x) segs"
    by (simp add: sentence_segmenter_def)
qed

theorem shifter_behaviour_witness:
  "0 < fst (2::nat, 4::nat) \<and> fst (2::nat, 4::nat) < length (tokens doc_two_spaces)
   \<and> \<not> has_nonspace (tok_text (tokens doc_two_spaces ! fst (2::nat, 4::nat)))
   \<and> [(0::nat, 2::nat)] \<noteq> []
   \<and> shift_step doc_two_spaces [(0, 2)] (2, 4) = Inr [(0, 3), (3, 4)]
   \<and> shift_step doc_two_spaces [] (0, 2) = Inr [(0, 2)]
   \<and> parser_contract doc_two_spaces
   \<and> sentence_segmenter doc_two_spaces = Inr (shifted_spans doc_two_spaces (sents doc_two_spaces))
   \<and> list_all (\<lambda>x. 0 < fst x \<and> \<not> has_nonspace (tok_text (tokens doc_two_spaces ! fst x))
                     \<longrightarrow> fst x + 1 < snd x) (sents doc_two_spaces)
   \<and> (\<exists>segs. sentence_segmenter doc_two_spaces = Inr segs \<and> list_all (\<lambda>x. fst x < snd x) segs)"
proof -
  have a: "0 < fst (2::nat, 4::nat) \<and> fst (2::nat, 4::nat) < length (tokens doc_two_spaces)
     \<and> \<not> has_nonspace (tok_text (tokens doc_two_spaces ! fst (2::nat, 4::nat)))
     \<and> [(0::nat, 2::nat)] \<noteq> []"
    by (simp add: doc_two_spaces_def tok_def has_nonspace_def isspace_def)
  have b: "parser_contract doc_two_spaces
     \<and> list_all (\<lambda>x. 0 < fst x \<and> \<not> has_nonspace (tok_text (tokens doc_two_spaces ! fst x))
                     \<longrightarrow> fst x + 1 < snd x) (sents doc_two_spaces)"
    by (simp add: parser_contract_def doc_two_spaces_def tok_def has_nonspace_def isspace_def)
  have c: "fst (0::nat, 2::nat) = 0" by simp
  note t = shifter_behaviour [of "(2, 4)" doc_two_spaces "[(0, 2)]"]
  from t a have 1: "shift_step doc_two_spaces [(0, 2)] (2, 4) = Inr [(0, 3), (3, 4)]"
    by simp
  from t b have 3: "\<exists>segs. sentence_segmenter doc_two_spaces = Inr segs
      \<and> list_all (\<lambda>x. fst x < snd x) segs"
    by blast
  from t b have 4: "sentence_segmenter doc_two_spaces
      = Inr (shifted_spans doc_two_spaces (sents doc_two_spaces))"
    by blast
  from shifter_behaviour [of "(0, 2)" doc_two_spaces "[]"] c
  have 2: "shift_step doc_two_spaces [] (0, 2) = Inr [(0, 2)]" by simp
  from a b 1 2 3 4 show ?thesis by blast
qed

text \<open>
  On "Hi.  " the second candidate is the single whitespace token 2; the shift is applied
  and leaves the empty span (3, 3).
\<close>

theorem shifter_makes_empty_span:
  "parser_contract doc_trailing_space
   \<and> \<not> has_nonspace (tok_text (tokens doc_trailing_space ! 2))
   \<and> sentence_segmenter doc_trailing_space = Inr [(0, 3), (3, 3)]"
  by (simp add: parser_contract_def doc_trailing_space_def tok_def sentence_segmenter_def
      merge_step_def shift_step_def doc_index_def has_nonspace_def span_defs char_defs rule_defs)

text \<open>
  When the one-token candidate (2, 3) is shifted and so is its successor (3, 5), the
  result has no empty span.
\<close>

lemma shifter_two_whitespace_tokens:
  "parser_contract doc_two_ws
   \<and> shifted_spans doc_two_ws (sents doc_two_ws) = [(0, 3), (3, 4), (4, 5)]
   \<and> sentence_segmenter doc_two_ws = Inr [(0, 3), (3, 4), (4, 5)]"
  by (simp add: parser_contract_def doc_two_ws_def tok_def sentence_segmenter_def shifts_def
      merge_step_def shift_step_def doc_index_def has_nonspace_def span_defs char_defs rule_defs)

section \<open>set_sentence_starts\<close>

lemma length_mark_tokens: "length (mark_tokens starts i ts) = length ts"
  by (induction ts arbitrary: i) auto

lemma nth_mark_tokens:
  "j < length ts \<Longrightarrow>
   mark_tokens starts i ts ! j =
     (ts ! j)\<lparr>tok_is_sent_start := (if i + j \<in> set starts then Some True else None)\<rparr>"
proof (induction ts arbitrary: i j)
  case Nil
  then show ?case by simp
next
  case (Cons t ts)
  show ?case
  proof (cases j)
    case 0
    then show ?thesis by simp
  next
    case (Suc k)
    with Cons.prems have "k < length ts" by simp
    from Cons.IH [OF this, of "Suc i"] Suc show ?thesis by simp
  qed
qed

text \<open>
  C10. When \<^verbatim>\<open>sentence_segmenter\<close> returns the segments \<open>segs\<close>,
  \<^verbatim>\<open>set_sentence_starts\<close> returns the doc's tokens, as many as before, where every
  token other than the last has \<^verbatim>\<open>is_sent_start\<close> set to True if some segment starts
  at its index and to None otherwise, and is otherwise as it was; the last token is
  not modified at all, even if a segment starts there.
\<close>

theorem set_sentence_starts_marks:
  assumes "sentence_segmenter d = Inr segs"
  shows "\<exists>ts'. set_sentence_starts d = Inr ts'
           \<and> length ts' = length (tokens d)
           \<and> (\<forall>i. i + 1 < length (tokens d) \<longrightarrow>
                 ts' ! i =
                   (tokens d ! i)\<lparr>tok_is_sent_start :=
                      (if i \<in> fst ` set segs then Some True else None)\<rparr>)
           \<and> (tokens d \<noteq> [] \<longrightarrow> last ts' = last (tokens d))"
proof (cases "tokens d = []")
  case True
  with assms show ?thesis by (simp add: set_sentence_starts_def)
next
  case False
  let ?ts = "mark_tokens (map fst segs) 0 (butlast (tokens d)) @ [last (tokens d)]"
  from assms False have s: "set_sentence_starts d = Inr ?ts"
    by (simp add: set_sentence_starts_def Let_def)
  from False have len: "length ?ts = length (tokens d)"
    by (simp add: length_mark_tokens)
  have nth: "?ts ! i = (tokens d ! i)\<lparr>tok_is_sent_start :=
                      (if i \<in> fst ` set segs then Some True else None)\<rparr>"
    if "i + 1 < length (tokens d)" for i
  proof -
    from that have i: "i < length (butlast (tokens d))" by simp
    then have "?ts ! i = mark_tokens (map fst segs) 0 (butlast (tokens d)) ! i"
      by (simp add: nth_append length_mark_tokens)
    also have "\<dots> = (butlast (tokens d) ! i)\<lparr>tok_is_sent_start :=
                      (if 0 + i \<in> set (map fst segs) then Some True else None)\<rparr>"
      using i by (rule nth_mark_tokens)
    also have "butlast (tokens d) ! i = tokens d ! i"
      using i by (simp add: nth_butlast)
    finally show ?thesis by simp
  qed
  from s len nth show ?thesis by simp
qed

theorem set_sentence_starts_marks_witness:
  "sentence_segmenter doc_last_start = Inr [(0, 2), (2, 3)]
   \<and> (\<exists>ts'. set_sentence_starts doc_last_start = Inr ts'
         \<and> length ts' = length (tokens doc_last_start)
         \<and> (\<forall>i. i + 1 < length (tokens doc_last_start) \<longrightarrow>
               ts' ! i =
                 (tokens doc_last_start ! i)\<lparr>tok_is_sent_start :=
                    (if i \<in> fst ` set [(0::nat, 2::nat), (2, 3)] then Some True else None)\<rparr>)
         \<and> (tokens doc_last_start \<noteq> [] \<longrightarrow> last ts' = last (tokens doc_last_start)))"
proof -
  have h: "sentence_segmenter doc_last_start = Inr [(0, 2), (2, 3)]"
    by (simp add: doc_last_start_def tok_def sentence_segmenter_def
      merge_step_def shift_step_def doc_index_def has_nonspace_def span_defs char_defs rule_defs)
  show ?thesis using h set_sentence_starts_marks [OF h] by blast
qed

text \<open>A run on "Hi. ok": token 1 is reset from False to None; token 2, the last, where
  the segment (2, 3) starts, is left as it was.\<close>

lemma set_sentence_starts_last_start:
  "set_sentence_starts doc_last_start =
     Inr [\<lparr>tok_text = ''Hi'', tok_ws = False, tok_is_sent_start = Some True\<rparr>,
          \<lparr>tok_text = ''.'', tok_ws = True, tok_is_sent_start = None\<rparr>,
          \<lparr>tok_text = ''ok'', tok_ws = False, tok_is_sent_start = Some True\<rparr>]"
  by (simp add: doc_last_start_def set_sentence_starts_def sentence_segmenter_def
      merge_step_def shift_step_def doc_index_def has_nonspace_def span_defs char_defs rule_defs)

section \<open>The boundary merger\<close>

lemma collect_sentences_snoc:
  "collect_sentences d prev st (xs @ [c]) =
     (case collect_sentences d prev st xs of
        Inl e \<Rightarrow> Inl e
      | Inr st' \<Rightarrow> collect_step d (if xs = [] then prev else Some (last xs)) st' c)"
  by (induction xs arbitrary: prev st) (auto split: sum.splits)

lemma collect_step_inv:
  assumes "prev \<noteq> None \<longrightarrow> offs \<noteq> [] \<and> spans \<noteq> []"
  shows "\<exists>need' offs' spans'. collect_step d prev (need, offs, spans) c = Inr (need', offs', spans')
           \<and> offs' \<noteq> [] \<and> spans' \<noteq> [] \<and> snd (last offs') = snd c"
  using assms by (auto simp: collect_step_def Let_def split: option.splits)

lemma collect_sentences_inv:
  "(prev \<noteq> None \<longrightarrow> offs \<noteq> [] \<and> spans \<noteq> []) \<Longrightarrow>
   \<exists>need' offs' spans'. collect_sentences d prev (need, offs, spans) cands = Inr (need', offs', spans')
      \<and> (cands \<noteq> [] \<longrightarrow> offs' \<noteq> [] \<and> spans' \<noteq> [] \<and> snd (last offs') = snd (last cands))"
proof (induction cands arbitrary: prev need offs spans)
  case Nil
  then show ?case by simp
next
  case (Cons c cs)
  from collect_step_inv [OF Cons.prems, of d need c]
  obtain n1 o1 s1 where st: "collect_step d prev (need, offs, spans) c = Inr (n1, o1, s1)"
    and ne: "o1 \<noteq> []" "s1 \<noteq> []" and l: "snd (last o1) = snd c" by blast
  from ne have "Some c \<noteq> None \<longrightarrow> o1 \<noteq> [] \<and> s1 \<noteq> []" by simp
  from Cons.IH [OF this, of n1]
  obtain n2 o2 s2 where r: "collect_sentences d (Some c) (n1, o1, s1) cs = Inr (n2, o2, s2)"
    and i: "cs \<noteq> [] \<longrightarrow> o2 \<noteq> [] \<and> s2 \<noteq> [] \<and> snd (last o2) = snd (last cs)" by blast
  show ?case
  proof (cases "cs = []")
    case True
    with st r ne l show ?thesis by simp
  next
    case False
    with st r i show ?thesis by simp
  qed
qed

text \<open>
  C1 (as amended). In \<^verbatim>\<open>nlp.sentence_segmenter\<close> the fold branch is switched off
  (\<^verbatim>\<open>and False\<close>): whenever the classifier returns, whatever its answer, the candidate
  is appended as a new entry, so the merge loop returns the candidates unchanged. In
  \<^verbatim>\<open>Document.generate_sentences\<close>, for every sequence of candidates processed in
  document order, the loop does not raise, the last accumulated span ends where the
  last candidate ends, and the next candidate is folded into the last accumulated span
  (its end becomes the candidate's end, and a reparse is requested) exactly when it is
  not the first candidate and \<^verbatim>\<open>Document.combine_with_previous\<close> returns True for
  (the immediately preceding candidate as the parser gave it, the candidate);
  otherwise it is appended as a new entry.
\<close>

theorem merger_step:
  "(sen_offsets = [] \<or>
      (\<exists>b. combine_with_previous (doc_slice d (fst (last sen_offsets)) (snd (last sen_offsets)))
             (doc_slice d (fst sen) (snd sen)) = Inr b) \<longrightarrow>
      merge_step d sen_offsets sen = Inr (sen_offsets @ [sen]))
   \<and> (merge_loop d [] cands = Inr r \<longrightarrow> r = cands)
   \<and> (\<exists>need offs spans.
        collect_sentences d None (False, [], []) cands = Inr (need, offs, spans)
        \<and> (cands \<noteq> [] \<longrightarrow> offs \<noteq> [] \<and> snd (last offs) = snd (last cands))
        \<and> collect_sentences d None (False, [], []) (cands @ [sen]) =
            (if cands \<noteq> [] \<and> Document_combine_with_previous
                  (doc_slice d (fst (last cands)) (snd (last cands)))
                  (doc_slice d (fst sen) (snd sen))
             then Inr (True,
                       butlast offs @ [(fst (last offs), snd sen)],
                       butlast spans @ [doc_slice d (fst (last offs)) (snd sen)])
             else Inr (need, offs @ [sen], spans @ [doc_slice d (fst sen) (snd sen)])))"
proof (intro conjI impI)
  assume "sen_offsets = [] \<or>
      (\<exists>b. combine_with_previous (doc_slice d (fst (last sen_offsets)) (snd (last sen_offsets)))
             (doc_slice d (fst sen) (snd sen)) = Inr b)"
  then show "merge_step d sen_offsets sen = Inr (sen_offsets @ [sen])"
    by (auto simp: merge_step_def Let_def)
next
  assume "merge_loop d [] cands = Inr r"
  then show "r = cands" using merge_loop_append by fastforce
next
  have "(None :: (nat \<times> nat) option) \<noteq> None \<longrightarrow> ([] :: (nat \<times> nat) list) \<noteq> [] \<and> ([] :: span list) \<noteq> []"
    by simp
  from collect_sentences_inv [OF this, of d False cands]
  obtain need offs spans where
    r: "collect_sentences d None (False, [], []) cands = Inr (need, offs, spans)"
    and i: "cands \<noteq> [] \<longrightarrow> offs \<noteq> [] \<and> spans \<noteq> [] \<and> snd (last offs) = snd (last cands)"
    by blast
  have "collect_sentences d None (False, [], []) (cands @ [sen]) =
            (if cands \<noteq> [] \<and> Document_combine_with_previous
                  (doc_slice d (fst (last cands)) (snd (last cands)))
                  (doc_slice d (fst sen) (snd sen))
             then Inr (True,
                       butlast offs @ [(fst (last offs), snd sen)],
                       butlast spans @ [doc_slice d (fst (last offs)) (snd sen)])
             else Inr (need, offs @ [sen], spans @ [doc_slice d (fst sen) (snd sen)]))"
    using r i
    by (cases "cands = []")
       (auto simp: collect_sentences_snoc collect_step_def Let_def split: prod.splits)
  with r i show "\<exists>need offs spans.
        collect_sentences d None (False, [], []) cands = Inr (need, offs, spans)
        \<and> (cands \<noteq> [] \<longrightarrow> offs \<noteq> [] \<and> snd (last offs) = snd (last cands))
        \<and> collect_sentences d None (False, [], []) (cands @ [sen]) =
            (if cands \<noteq> [] \<and> Document_combine_with_previous
                  (doc_slice d (fst (last cands)) (snd (last cands)))
                  (doc_slice d (fst sen) (snd sen))
             then Inr (True,
                       butlast offs @ [(fst (last offs), snd sen)],
                       butlast spans @ [doc_slice d (fst (last offs)) (snd sen)])
             else Inr (need, offs @ [sen], spans @ [doc_slice d (fst sen) (snd sen)]))"
    by blast
qed


theorem merger_step_witness:
  "(\<exists>b. combine_with_previous (doc_slice doc_hi_ok 0 2) (doc_slice doc_hi_ok 2 3) = Inr b)
   \<and> merge_step doc_hi_ok [(0, 2)] (2, 3) = Inr [(0, 2), (2, 3)]
   \<and> merge_loop doc_hi_ok [] [(0, 2)] = Inr [(0, 2)]
   \<and> Document_combine_with_previous (doc_slice doc_hi_ok 0 2) (doc_slice doc_hi_ok 2 3)
   \<and> collect_sentences doc_hi_ok None (False, [], []) [(0, 2), (2, 3)]
       = Inr (True, [(0, 3)], [doc_slice doc_hi_ok 0 3])"
proof -
  have a: "combine_with_previous (doc_slice doc_hi_ok 0 2) (doc_slice doc_hi_ok 2 3) = Inr True"
    by (simp add: doc_hi_ok_def span_defs char_defs rule_defs)
  have b: "merge_loop doc_hi_ok [] [(0, 2)] = Inr [(0, 2)]"
    by (simp add: merge_step_def)
  have c: "Document_combine_with_previous (doc_slice doc_hi_ok 0 2) (doc_slice doc_hi_ok 2 3)"
    by (simp add: doc_hi_ok_def span_defs Document_combine_with_previous_def)
  have e: "collect_sentences doc_hi_ok None (False, [], []) [(0, 2)]
             = Inr (False, [(0, 2)], [doc_slice doc_hi_ok 0 2])"
    by (simp add: collect_step_def)
  note t = merger_step [where sen_offsets = "[(0, 2)]" and d = doc_hi_ok and sen = "(2, 3)"
      and cands = "[(0, 2)]" and r = "[(0, 2)]"]
  from a have a': "\<exists>b. combine_with_previous
      (doc_slice doc_hi_ok (fst (last [(0, 2)])) (snd (last [(0, 2)])))
      (doc_slice doc_hi_ok (fst (2, 3)) (snd (2, 3))) = Inr b" by auto
  from t a' have "merge_step doc_hi_ok [(0, 2)] (2, 3) = Inr ([(0, 2)] @ [(2, 3)])" by blast
  then have 1: "merge_step doc_hi_ok [(0, 2)] (2, 3) = Inr [(0, 2), (2, 3)]" by simp
  from t obtain need offs spans where
    o: "collect_sentences doc_hi_ok None (False, [], []) [(0, 2)] = Inr (need, offs, spans)"
    and p: "collect_sentences doc_hi_ok None (False, [], []) ([(0, 2)] @ [(2, 3)]) =
            (if [(0::nat, 2::nat)] \<noteq> [] \<and> Document_combine_with_previous
                  (doc_slice doc_hi_ok (fst (last [(0::nat, 2::nat)])) (snd (last [(0::nat, 2::nat)])))
                  (doc_slice doc_hi_ok (fst (2::nat, 3::nat)) (snd (2::nat, 3::nat)))
             then Inr (True,
                       butlast offs @ [(fst (last offs), snd (2::nat, 3::nat))],
                       butlast spans @ [doc_slice doc_hi_ok (fst (last offs)) (snd (2::nat, 3::nat))])
             else Inr (need, offs @ [(2, 3)],
                       spans @ [doc_slice doc_hi_ok (fst (2::nat, 3::nat)) (snd (2::nat, 3::nat))]))"
    by blast
  from o e have "offs = [(0, 2)]" "spans = [doc_slice doc_hi_ok 0 2]" by simp_all
  with p c have 2: "collect_sentences doc_hi_ok None (False, [], []) [(0, 2), (2, 3)]
       = Inr (True, [(0, 3)], [doc_slice doc_hi_ok 0 3])" by simp
  from a b c 1 2 show ?thesis by blast
qed

text \<open>
  On "Hi. ok" the accumulator holds (0, 2), the classifier of \<^verbatim>\<open>nlp.py\<close> returns True
  for ("Hi.", "ok"), and the candidate (2, 3) is appended all the same.
\<close>

theorem merge_loop_never_folds:
  "combine_with_previous (doc_slice doc_hi_ok 0 2) (doc_slice doc_hi_ok 2 3) = Inr True
   \<and> merge_step doc_hi_ok [(0, 2)] (2, 3) = Inr [(0, 2), (2, 3)]
   \<and> merge_step doc_hi_ok [(0, 2)] (2, 3) \<noteq> Inr [(0, 3)]
   \<and> merge_loop doc_hi_ok [] (sents doc_hi_ok) = Inr [(0, 2), (2, 3)]"
  by (simp add: doc_hi_ok_def merge_step_def span_defs char_defs rule_defs)

text \<open>
  On "Hi!ab Go on now" the candidate "ab" is folded into "Hi!". The next candidate is
  then classified against "ab", not against the accumulated "Hi!ab", and is folded
  too.
\<close>

lemma Document_merger_uses_raw_previous:
  "collect_sentences doc_exclaim None (False, [], []) [(0, 2), (2, 3)]
     = Inr (True, [(0, 3)], [doc_slice doc_exclaim 0 3])
   \<and> \<not> Document_combine_with_previous (doc_slice doc_exclaim 0 3) (doc_slice doc_exclaim 3 6)
   \<and> Document_combine_with_previous (doc_slice doc_exclaim 2 3) (doc_slice doc_exclaim 3 6)
   \<and> collect_sentences doc_exclaim None (False, [], []) (sents doc_exclaim)
     = Inr (True, [(0, 6)], [doc_slice doc_exclaim 0 6])"
  by (simp add: doc_exclaim_def collect_step_def span_defs char_defs rule_defs)

section \<open>The conditional reparse\<close>

lemma reparse_spans_eq:
  "reparse_spans nlp root mk_node (self, checked) spans =
     (self\<lparr>sentences := sentences self @ map (\<lambda>sp. doc_whole (nlp (span_text sp))) spans,
           trees := trees self
             @ map (\<lambda>sp. mk_node (nlp (span_text sp)) (root (doc_whole (nlp (span_text sp))))) spans,
           parse_calls := parse_calls self @ map span_text spans\<rparr>,
      checked @ map (\<lambda>sp. nlp (span_text sp)) spans)"
  by (induction spans arbitrary: self checked) (simp_all add: Let_def)

lemma keep_spans_eq:
  "keep_spans root mk_node d self spans =
     self\<lparr>sentences := sentences self @ spans,
          trees := trees self @ map (\<lambda>sp. mk_node d (root sp)) spans\<rparr>"
  by (induction spans arbitrary: self) simp_all

lemma collect_step_need:
  assumes "collect_step d prev (need, offs, spans) c = Inr (need', offs', spans')"
  shows "need' = (need \<or> 0 < fold_count d prev [c])"
  using assms
  by (auto simp: collect_step_def Let_def split: option.splits if_splits prod.splits)

lemma collect_sentences_need:
  "collect_sentences d prev (need, offs, spans) cands = Inr (need', offs', spans') \<Longrightarrow>
   need' = (need \<or> 0 < fold_count d prev cands)"
proof (induction cands arbitrary: prev need offs spans)
  case Nil
  then show ?case by simp
next
  case (Cons c cs)
  then obtain n1 o1 s1 where st: "collect_step d prev (need, offs, spans) c = Inr (n1, o1, s1)"
    and r: "collect_sentences d (Some c) (n1, o1, s1) cs = Inr (need', offs', spans')"
    by (auto split: sum.splits)
  from collect_step_need [OF st] have "n1 = (need \<or> 0 < fold_count d prev [c])" .
  moreover from Cons.IH [OF r] have "need' = (n1 \<or> 0 < fold_count d (Some c) cs)" .
  ultimately show ?case by (auto split: option.splits)
qed

lemma collect_sentences_no_fold:
  "fold_count d prev cands = 0 \<Longrightarrow>
   collect_sentences d prev (need, offs, spans) cands =
     Inr (need, offs @ cands, spans @ map (\<lambda>x. doc_slice d (fst x) (snd x)) cands)"
proof (induction cands arbitrary: prev offs spans)
  case Nil
  then show ?case by simp
next
  case (Cons c cs)
  from Cons.prems have "fold_count d (Some c) cs = 0" by simp
  from Cons.IH [OF this]
  have "collect_sentences d (Some c) (need, offs @ [c], spans @ [doc_slice d (fst c) (snd c)]) cs =
          Inr (need, (offs @ [c]) @ cs,
               (spans @ [doc_slice d (fst c) (snd c)]) @ map (\<lambda>x. doc_slice d (fst x) (snd x)) cs)" .
  moreover from Cons.prems
  have "collect_step d prev (need, offs, spans) c =
          Inr (need, offs @ [c], spans @ [doc_slice d (fst c) (snd c)])"
    by (auto simp: collect_step_def Let_def split: option.splits if_splits)
  ultimately show ?case by simp
qed

lemma span_tokens_slice:
  "start \<le> stop \<Longrightarrow> stop \<le> length (tokens d) \<Longrightarrow>
   span_tokens (doc_slice d start stop) = take (stop - start) (drop start (tokens d))"
  by (simp add: span_tokens_def doc_slice_def Let_def min_def max_def)

lemma chain_concat_tokens:
  "chain a xs b \<Longrightarrow> b \<le> length (tokens d) \<Longrightarrow>
   concat (map (\<lambda>x. span_tokens (doc_slice d (fst x) (snd x))) xs)
     = take (b - a) (drop a (tokens d))"
proof (induction xs arbitrary: a)
  case Nil
  then show ?case by simp
next
  case (Cons x xs)
  then have x: "fst x = a" "a \<le> snd x" "chain (snd x) xs b" by auto
  from chain_le [OF x(3)] have le: "snd x \<le> b" .
  with Cons.prems have "snd x \<le> length (tokens d)" by simp
  with x have h: "span_tokens (doc_slice d (fst x) (snd x)) = take (snd x - a) (drop a (tokens d))"
    by (simp add: span_tokens_slice)
  from Cons.IH [OF x(3) Cons.prems(2)]
  have t: "concat (map (\<lambda>x. span_tokens (doc_slice d (fst x) (snd x))) xs)
          = take (b - snd x) (drop (snd x) (tokens d))" .
  have "take (b - a) (drop a (tokens d))
          = take (snd x - a) (drop a (tokens d)) @ take (b - snd x) (drop (snd x) (tokens d))"
  proof -
    from x(2) le have "b - a = (snd x - a) + (b - snd x)" by simp
    then have "take (b - a) (drop a (tokens d))
       = take (snd x - a) (drop a (tokens d))
         @ take (b - snd x) (drop (snd x - a) (drop a (tokens d)))"
      by (simp only: take_add)
    with x(2) show ?thesis by simp
  qed
  with h t show ?case by simp
qed

text \<open>
  C7. For every Document (one parsed doc, as \<^verbatim>\<open>__init__\<close> builds it) whose merge
  count is zero, \<^verbatim>\<open>generate_sentences\<close> returns without another call of the parser,
  keeps the doc, and its sentences are the candidate spans of that doc with their
  trees built on it: every sentence's tokens are tokens of the original parse, and when
  the candidates partition the doc the sentences' tokens together are exactly the
  doc's tokens.
\<close>

theorem no_fold_keeps_original_parse:
  assumes "spacy_docs self = [d]" and "fold_count d None (sents d) = 0"
  shows "\<exists>self'. generate_sentences nlp root mk_node self = Inr self'
           \<and> parse_calls self' = parse_calls self
           \<and> spacy_docs self' = [d]
           \<and> sentences self' = map (\<lambda>x. doc_slice d (fst x) (snd x)) (sents d)
           \<and> trees self' = map (\<lambda>x. mk_node d (root (doc_slice d (fst x) (snd x)))) (sents d)
           \<and> (\<forall>sp\<in>set (sentences self'). sdoc sp = d)
           \<and> (chain 0 (sents d) (length (tokens d)) \<longrightarrow>
                concat (map span_tokens (sentences self')) = tokens d)"
proof -
  let ?spans = "map (\<lambda>x. doc_slice d (fst x) (snd x)) (sents d)"
  let ?self' = "self\<lparr>sentences := ?spans,
                      trees := map (\<lambda>sp. mk_node d (root sp)) ?spans,
                      spacy_docs := [d]\<rparr>"
  from collect_sentences_no_fold [OF assms(2), of False "[]" "[]"]
  have c: "collect_sentences d None (False, [], []) (sents d) = Inr (False, sents d, ?spans)"
    by simp
  with assms(1) have g: "generate_sentences nlp root mk_node self = Inr ?self'"
    by (simp add: generate_sentences_def keep_spans_eq)
  have t: "map (\<lambda>sp. mk_node d (root sp)) ?spans
             = map (\<lambda>x. mk_node d (root (doc_slice d (fst x) (snd x)))) (sents d)"
    by (simp add: comp_def)
  have s: "\<forall>sp\<in>set ?spans. sdoc sp = d"
    by (auto simp: doc_slice_def Let_def)
  have k: "chain 0 (sents d) (length (tokens d)) \<longrightarrow> concat (map span_tokens ?spans) = tokens d"
  proof
    assume "chain 0 (sents d) (length (tokens d))"
    from chain_concat_tokens [OF this, of d] show "concat (map span_tokens ?spans) = tokens d"
      by (simp add: comp_def)
  qed
  from g t s k show ?thesis by simp
qed

theorem no_fold_keeps_original_parse_witness:
  "spacy_docs (document_of doc_v1) = [doc_v1]
   \<and> fold_count doc_v1 None (sents doc_v1) = 0
   \<and> chain 0 (sents doc_v1) (length (tokens doc_v1))
   \<and> (\<exists>self'. generate_sentences single_token_parser sstart Pair (document_of doc_v1) = Inr self'
         \<and> parse_calls self' = parse_calls (document_of doc_v1)
         \<and> spacy_docs self' = [doc_v1]
         \<and> sentences self' = map (\<lambda>x. doc_slice doc_v1 (fst x) (snd x)) (sents doc_v1)
         \<and> trees self' = map (\<lambda>x. (doc_v1, sstart (doc_slice doc_v1 (fst x) (snd x)))) (sents doc_v1)
         \<and> (\<forall>sp\<in>set (sentences self'). sdoc sp = doc_v1)
         \<and> concat (map span_tokens (sentences self')) = tokens doc_v1)"
proof -
  have a: "spacy_docs (document_of doc_v1) = [doc_v1]"
    by (simp add: document_of_def)
  have b: "fold_count doc_v1 None (sents doc_v1) = 0"
    by (simp add: doc_v1_def span_defs char_defs rule_defs)
  have c: "chain 0 (sents doc_v1) (length (tokens doc_v1))"
    by (simp add: doc_v1_def)
  show ?thesis
    using a b c
      no_fold_keeps_original_parse [OF a b, of single_token_parser sstart Pair]
    by blast
qed

text \<open>
  C6. For every Document (one parsed doc) whose merge count is positive, the loop ends
  with the reparse flag set, and \<^verbatim>\<open>generate_sentences\<close> hands the text of every
  finalized span to the parser, in order, as a text of its own; the sentence is the
  whole of the doc that call returns, its tree is built on that doc, and the Document
  keeps these docs in place of the original one.
\<close>

theorem fold_reparses_every_span:
  assumes "spacy_docs self = [d]" and "0 < fold_count d None (sents d)"
  shows "\<exists>offs spans self'.
           collect_sentences d None (False, [], []) (sents d) = Inr (True, offs, spans)
           \<and> generate_sentences nlp root mk_node self = Inr self'
           \<and> sentences self' = map (\<lambda>sp. doc_whole (nlp (span_text sp))) spans
           \<and> trees self' =
               map (\<lambda>sp. mk_node (nlp (span_text sp)) (root (doc_whole (nlp (span_text sp))))) spans
           \<and> parse_calls self' = parse_calls self @ map span_text spans
           \<and> spacy_docs self' = map (\<lambda>sp. nlp (span_text sp)) spans"
proof -
  have "(None :: (nat \<times> nat) option) \<noteq> None \<longrightarrow> ([] :: (nat \<times> nat) list) \<noteq> [] \<and> ([] :: span list) \<noteq> []"
    by simp
  from collect_sentences_inv [OF this, of d False "sents d"]
  obtain need offs spans where
    r: "collect_sentences d None (False, [], []) (sents d) = Inr (need, offs, spans)" by blast
  from collect_sentences_need [OF r] assms(2) have need by simp
  with r have c: "collect_sentences d None (False, [], []) (sents d) = Inr (True, offs, spans)"
    by simp
  let ?self' = "self\<lparr>sentences := map (\<lambda>sp. doc_whole (nlp (span_text sp))) spans,
       trees := map (\<lambda>sp. mk_node (nlp (span_text sp)) (root (doc_whole (nlp (span_text sp))))) spans,
       parse_calls := parse_calls self @ map span_text spans,
       spacy_docs := map (\<lambda>sp. nlp (span_text sp)) spans\<rparr>"
  from c assms(1) have "generate_sentences nlp root mk_node self = Inr ?self'"
    by (simp add: generate_sentences_def reparse_spans_eq)
  with c show ?thesis by simp
qed


theorem fold_reparses_every_span_witness:
  "spacy_docs (document_of doc_hi_ok) = [doc_hi_ok]
   \<and> 0 < fold_count doc_hi_ok None (sents doc_hi_ok)
   \<and> (\<exists>offs spans self'.
         collect_sentences doc_hi_ok None (False, [], []) (sents doc_hi_ok) = Inr (True, offs, spans)
         \<and> generate_sentences single_token_parser sstart Pair (document_of doc_hi_ok) = Inr self'
         \<and> sentences self' = map (\<lambda>sp. doc_whole (single_token_parser (span_text sp))) spans
         \<and> trees self' =
             map (\<lambda>sp. (single_token_parser (span_text sp),
                        sstart (doc_whole (single_token_parser (span_text sp))))) spans
         \<and> parse_calls self' = parse_calls (document_of doc_hi_ok) @ map span_text spans
         \<and> spacy_docs self' = map (\<lambda>sp. single_token_parser (span_text sp)) spans)"
proof -
  have a: "spacy_docs (document_of doc_hi_ok) = [doc_hi_ok]"
    by (simp add: document_of_def)
  have b: "0 < fold_count doc_hi_ok None (sents doc_hi_ok)"
    by (simp add: doc_hi_ok_def span_defs Document_combine_with_previous_def)
  show ?thesis
    using a b
      fold_reparses_every_span [OF a b, of single_token_parser sstart Pair]
    by blast
qed

text \<open>A run on "Hi. ok" with the stand-in parser: one fold, one reparse of "Hi. ok".\<close>

lemma generate_sentences_hi_ok:
  "generate_sentences single_token_parser sstart Pair (document_of doc_hi_ok) =
     Inr \<lparr>spacy_docs = [single_token_parser ''Hi. ok''],
          sentences = [doc_whole (single_token_parser ''Hi. ok'')],
          trees = [(single_token_parser ''Hi. ok'', 0)],
          parse_calls = [''Hi. ok'']\<rparr>"
  by (simp add: generate_sentences_def document_of_def doc_hi_ok_def collect_step_def
      Document_combine_with_previous_def doc_whole_def span_defs Let_def)

end
